theory Spec2Isabelle
  imports Main
begin

section \<open>Text\<close>

text \<open>
  A Python \<open>str\<close> is a sequence of Unicode code points, and \<open>len\<close> counts code
  points. A string is therefore a list of natural numbers here; \<open>codes\<close> turns an ASCII
  literal into that form.
\<close>

type_synonym ustr = "nat list"

definition codes :: "string \<Rightarrow> ustr" where
  "codes s = map of_char s"

text \<open>
  The patterns \<open>\w\<close> and \<open>\s\<close> of the \<open>re\<close> module are Unicode aware for \<open>str\<close>
  patterns. Their ASCII part is fixed: \<open>\w\<close> is \<open>[A-Za-z0-9_]\<close>, \<open>\s\<close> is the tab, line
  feed, vertical tab, form feed, carriage return, the four separators \<open>0x1C\<close> to \<open>0x1F\<close>
  and the blank. Beyond ASCII the classification comes from the Unicode database of the
  interpreter, which is not part of the repository: it is a parameter of the model, and
  every result below holds for every such database. \<open>str.strip\<close> and \<open>\s\<close> use the same
  whitespace test.
\<close>

record unicode_db =
  uni_alnum :: "nat \<Rightarrow> bool"
  uni_space :: "nat \<Rightarrow> bool"

definition ascii_db :: unicode_db where
  "ascii_db = \<lparr>uni_alnum = (\<lambda>c. False), uni_space = (\<lambda>c. False)\<rparr>"

definition is_word :: "unicode_db \<Rightarrow> nat \<Rightarrow> bool" where
  "is_word db c \<longleftrightarrow>
     c = 95 \<or> (48 \<le> c \<and> c \<le> 57) \<or> (65 \<le> c \<and> c \<le> 90) \<or> (97 \<le> c \<and> c \<le> 122)
     \<or> (128 \<le> c \<and> uni_alnum db c)"

definition is_space :: "unicode_db \<Rightarrow> nat \<Rightarrow> bool" where
  "is_space db c \<longleftrightarrow>
     (9 \<le> c \<and> c \<le> 13) \<or> (28 \<le> c \<and> c \<le> 32) \<or> (128 \<le> c \<and> uni_space db c)"

section \<open>The filename sanitizer\<close>

text \<open>
  \<^verbatim>\<open>safe = re.sub(r'[<>:"/\\|?*]', '_', text)\<close>: the nine reserved characters
  \<open>< > : " / \ | ? *\<close> (code points 60, 62, 58, 34, 47, 92, 124, 63, 42) each become an
  underscore (95).
\<close>

definition reserved :: "nat \<Rightarrow> bool" where
  "reserved c \<longleftrightarrow> c \<in> {60, 62, 58, 34, 47, 92, 124, 63, 42}"

definition sub_reserved :: "ustr \<Rightarrow> ustr" where
  "sub_reserved text = map (\<lambda>c. if reserved c then 95 else c) text"

text \<open>
  \<^verbatim>\<open>safe = re.sub(r'[^\w\s.-]', '', safe)\<close>: every character that is not a word
  character, whitespace, a full stop (46) or a hyphen (45) is removed.
\<close>

definition keep_char :: "unicode_db \<Rightarrow> nat \<Rightarrow> bool" where
  "keep_char db c \<longleftrightarrow> is_word db c \<or> is_space db c \<or> c = 46 \<or> c = 45"

definition drop_other :: "unicode_db \<Rightarrow> ustr \<Rightarrow> ustr" where
  "drop_other db text = filter (keep_char db) text"

text \<open>
  \<^verbatim>\<open>safe = re.sub(r'\s+', ' ', safe).strip()\<close>: each maximal run of whitespace
  becomes one blank (32), then leading and trailing whitespace goes.
\<close>

function collapse :: "unicode_db \<Rightarrow> ustr \<Rightarrow> ustr" where
  "collapse db [] = []"
| "collapse db (c # cs) =
     (if is_space db c then 32 # collapse db (dropWhile (is_space db) cs)
      else c # collapse db cs)"
  by pat_completeness auto
termination
  by (relation "measure (\<lambda>(db, s). length s)")
     (auto simp: le_imp_less_Suc length_dropWhile_le)

definition strip :: "unicode_db \<Rightarrow> ustr \<Rightarrow> ustr" where
  "strip db s = rev (dropWhile (is_space db) (rev (dropWhile (is_space db) s)))"

definition clean :: "unicode_db \<Rightarrow> ustr \<Rightarrow> ustr" where
  "clean db text = strip db (collapse db (drop_other db (sub_reserved text)))"

text \<open>
  \<^verbatim>\<open>safe[:max_length]\<close>: a negative bound counts from the end of the string (and
  stops at the empty string); \<open>max_length\<close> is a Python \<open>int\<close>, so it may be negative.
  \<^verbatim>\<open>.rsplit(' ', 1)[0]\<close> is the part before the last blank, or the whole string
  when it has no blank.
\<close>

definition slice_to :: "ustr \<Rightarrow> int \<Rightarrow> ustr" where
  "slice_to s n = (if n < 0 then take (nat (int (length s) + n)) s else take (nat n) s)"

definition rsplit1_head :: "ustr \<Rightarrow> ustr" where
  "rsplit1_head s =
     (if 32 \<in> set s then rev (tl (dropWhile (\<lambda>c. c \<noteq> 32) (rev s))) else s)"

definition safe_filename :: "unicode_db \<Rightarrow> ustr \<Rightarrow> int \<Rightarrow> ustr" where
  "safe_filename db text max_length =
     (let safe = clean db text;
          safe = (if int (length safe) > max_length
                  then rsplit1_head (slice_to safe max_length) else safe)
      in if safe = [] then codes ''untitled'' else safe)"

section \<open>Data\<close>

text \<open>
  A tab is one object of the JSON list that the debugging endpoint returns; the code
  reads its keys with \<open>dict.get\<close>, so each may be missing.
\<close>

record tab =
  tab_id :: "ustr option"
  tab_url :: "ustr option"
  tab_title :: "ustr option"
  tab_type :: "ustr option"

text \<open>The fields of \<open>Config\<close> that the pipeline reads, with the values of \<open>Config.__init__\<close>.\<close>

record config =
  days_idle :: int
  max_filename_length :: int
  max_retries :: int
  dry_run :: bool

definition Config_init :: config where
  "Config_init = \<lparr>days_idle = 0, max_filename_length = 80, max_retries = 3, dry_run = False\<rparr>"

text \<open>
  Times are microseconds since the Chrome epoch (1601-01-01 00:00:00), the unit of the
  column \<open>last_visit_time\<close>. A \<open>datetime\<close> has microsecond resolution and lies between
  \<open>datetime.min\<close> (0001-01-01 00:00:00, 584388 days before the epoch) and
  \<open>datetime.max\<close> (9999-12-31 23:59:59.999999, one microsecond before day 3067671
  after it); arithmetic that leaves this range, or a \<open>timedelta\<close> of more than
  999999999 days, raises \<open>OverflowError\<close>. Nothing in the pipeline catches that error:
  it leaves \<open>process_tabs\<close>.
\<close>

datatype error = OverflowError

definition datetime_min :: int where
  "datetime_min = - (584388 * 86400000000)"

definition datetime_max :: int where
  "datetime_max = 3067671 * 86400000000 - 1"

definition representable :: "int \<Rightarrow> bool" where
  "representable t \<longleftrightarrow> datetime_min \<le> t \<and> t \<le> datetime_max"

text \<open>
  What the three external services answer, and the time of the run (\<open>now\<close>, which in
  the source is a \<open>datetime\<close>; the results below hold for every integer). A history
  query finds a row (with the raw
  integer of the column), finds none, or fails with a database error. Copying the history
  database succeeds, or fails; a failed copy may have created the destination file
  already (\<open>Copy_failed True\<close>). A rendering attempt either completes (\<open>Rendered\<close>, with the
  size of the PDF it wrote) or raises (\<open>Failed\<close>); an attempt that raises after
  \<open>page.pdf\<close> has written the file leaves that file behind (\<open>Failed (Some size)\<close>).
  The answer of the \<open>i\<close>-th rendering attempt of the run is \<open>render e i\<close>.
\<close>

datatype lookup = Visited int | No_row | Db_error

datatype copy_outcome = Copied | Copy_failed bool

datatype attempt = Rendered nat | Failed "nat option"

record env =
  chars :: unicode_db
  now :: int
  history_exists :: bool
  tabs_response :: "tab list option"
  copy_result :: copy_outcome
  last_visit_time :: "ustr \<Rightarrow> lookup"
  render :: "nat \<Rightarrow> attempt"
  close_ok :: "ustr \<Rightarrow> bool"
  netloc :: "ustr \<Rightarrow> ustr"

text \<open>One row of the index: the variable parts of the HTML row that \<open>store_locally\<close> writes.\<close>

definition copy_ok :: "env \<Rightarrow> bool" where
  "copy_ok e \<longleftrightarrow> copy_result e = Copied"

record archive_record =
  rec_time :: int
  rec_title :: ustr
  rec_url :: ustr
  rec_domain :: ustr
  rec_size :: nat
  rec_pdf :: ustr

datatype index_line = Html_head | Header_row | Row archive_record

text \<open>The calls to the logger at level INFO and above, one constructor for each call site.\<close>

datatype log_record =
    Error_history_not_found
  | Info_looking_for int
  | Error_connect
  | Info_found nat
  | Error_copy_history
  | Warning_database
  | Info_archiving bool ustr
  | Warning_no_url
  | Warning_close_failed
  | Warning_attempt_failed nat
  | Error_gave_up int
  | Info_archived
  | Error_not_archived

text \<open>
  Everything the run can change: the output root and the day directory (do they exist),
  the PDF files of the day directory with their sizes (the newest entry of a name is the
  file's content), the index file (\<open>None\<close> while it does not exist), the temporary copy of
  the history database (does it exist, and how many times the run created it), the
  tab-close requests sent (by tab id), the rendering attempts made (the tab and the target
  file that \<open>snap_and_close_tab\<close> was called with), the pauses taken (in seconds) and the
  log.
\<close>

record world =
  root_dir :: bool
  day_dir :: bool
  pdfs :: "(ustr \<times> nat) list"
  index :: "index_line list option"
  tmp_history :: bool
  tmp_created :: nat
  close_requests :: "ustr list"
  renders :: "(tab \<times> ustr) list"
  sleeps :: "nat list"
  logged :: "log_record list"

definition fresh :: world where
  "fresh = \<lparr>root_dir = False, day_dir = False, pdfs = [], index = None, tmp_history = False,
            tmp_created = 0, close_requests = [], renders = [], sleeps = [], logged = []\<rparr>"

section \<open>Operations\<close>

definition emit :: "log_record \<Rightarrow> world \<Rightarrow> world" where
  "emit r w = w\<lparr>logged := logged w @ [r]\<rparr>"

definition sleep :: "nat \<Rightarrow> world \<Rightarrow> world" where
  "sleep seconds w = w\<lparr>sleeps := sleeps w @ [seconds]\<rparr>"

definition write_pdf :: "ustr \<Rightarrow> nat \<Rightarrow> world \<Rightarrow> world" where
  "write_pdf pdf_path n w = w\<lparr>pdfs := (pdf_path, n) # pdfs w\<rparr>"

text \<open>\<^verbatim>\<open>tab.get("url", "")\<close> and \<^verbatim>\<open>tab.get("title", "untitled")\<close>.\<close>

definition get_url :: "tab \<Rightarrow> ustr" where
  "get_url t = (case tab_url t of None \<Rightarrow> [] | Some u \<Rightarrow> u)"

definition get_title :: "tab \<Rightarrow> ustr" where
  "get_title t = (case tab_title t of None \<Rightarrow> codes ''untitled'' | Some s \<Rightarrow> s)"

definition is_page :: "tab \<Rightarrow> bool" where
  "is_page t \<longleftrightarrow> tab_type t = Some (codes ''page'')"

definition startswith :: "ustr \<Rightarrow> ustr \<Rightarrow> bool" where
  "startswith s p \<longleftrightarrow> take (length p) s = p"

definition internal_url :: "ustr \<Rightarrow> bool" where
  "internal_url u \<longleftrightarrow>
     startswith u (codes ''chrome://'') \<or> startswith u (codes ''chrome-extension://'')
     \<or> startswith u (codes ''edge://'') \<or> startswith u (codes ''about:'')"

text \<open>
  \<^verbatim>\<open>cutoff = now - dt.timedelta(days=self.config.days_idle)\<close>, in microseconds:
  the \<open>timedelta\<close> cannot be built for more than 999999999 days, and the difference must
  be a \<open>datetime\<close>.
\<close>

definition cutoff :: "env \<Rightarrow> config \<Rightarrow> error + int" where
  "cutoff e cfg =
     (if \<bar>days_idle cfg\<bar> > 999999999 then Inl OverflowError
      else if representable (now e - days_idle cfg * 86400000000)
           then Inr (now e - days_idle cfg * 86400000000)
           else Inl OverflowError)"

text \<open>
  \<^verbatim>\<open>CHROME_EPOCH + dt.timedelta(microseconds=microseconds)\<close>: the sum must be a
  \<open>datetime\<close> (which bounds the \<open>timedelta\<close> well below its own limit).
\<close>

definition chrome_ts :: "int \<Rightarrow> error + int" where
  "chrome_ts microseconds =
     (if representable microseconds then Inr microseconds else Inl OverflowError)"

subsection \<open>The index\<close>

text \<open>
  \<open>ensure_html_header\<close> returns at once when the index exists; otherwise it creates the
  root directory, writes the page head and appends the header row. \<open>store_locally\<close> then
  appends one row, in append mode (which creates a missing file).
\<close>

definition append_index :: "index_line \<Rightarrow> world \<Rightarrow> world" where
  "append_index l w =
     w\<lparr>index := Some ((case index w of None \<Rightarrow> [] | Some ls \<Rightarrow> ls) @ [l])\<rparr>"

definition ensure_html_header :: "world \<Rightarrow> world" where
  "ensure_html_header w =
     (if index w \<noteq> None then w
      else append_index Header_row (w\<lparr>root_dir := True, index := Some [Html_head]\<rparr>))"

definition store_locally :: "env \<Rightarrow> ustr \<Rightarrow> ustr \<Rightarrow> ustr \<Rightarrow> int \<Rightarrow> world \<Rightarrow> world" where
  "store_locally e url title pdf_path logged_at w =
     (let w1 = ensure_html_header w;
          file_size = (case map_of (pdfs w1) pdf_path of Some n \<Rightarrow> n | None \<Rightarrow> 0);
          row = \<lparr>rec_time = logged_at, rec_title = title, rec_url = url,
                 rec_domain = netloc e url, rec_size = file_size, rec_pdf = pdf_path\<rparr>
      in append_index (Row row) w1)"

fun rows_of :: "index_line list \<Rightarrow> archive_record list" where
  "rows_of [] = []"
| "rows_of (Row r # ls) = r # rows_of ls"
| "rows_of (l # ls) = rows_of ls"

definition index_rows :: "world \<Rightarrow> archive_record list" where
  "index_rows w = (case index w of None \<Rightarrow> [] | Some ls \<Rightarrow> rows_of ls)"

subsection \<open>The tab source and the history lookup\<close>

text \<open>
  A failed request is logged and answered with the empty list. A database error of the
  lookup is logged and answered with \<open>None\<close>; the \<open>OverflowError\<close> of \<open>chrome_ts\<close> is
  not a database error and is raised to the caller (\<open>Inl\<close>, with the world as it is).
\<close>

definition get_open_tabs :: "env \<Rightarrow> world \<Rightarrow> tab list \<times> world" where
  "get_open_tabs e w =
     (case tabs_response e of
        Some tabs \<Rightarrow> (tabs, w)
      | None \<Rightarrow> ([], emit Error_connect w))"

definition get_tab_history ::
  "env \<Rightarrow> ustr \<Rightarrow> world \<Rightarrow> (error \<times> world) + (int option \<times> world)" where
  "get_tab_history e url w =
     (case last_visit_time e url of
        Visited t \<Rightarrow>
          (case chrome_ts t of
             Inl err \<Rightarrow> Inl (err, w)
           | Inr visited \<Rightarrow> Inr (Some visited, w))
      | No_row \<Rightarrow> Inr (None, w)
      | Db_error \<Rightarrow> Inr (None, emit Warning_database w))"

subsection \<open>The snapshot renderer and the tab closer\<close>

text \<open>
  After a completed rendering the original tab is closed when the run is not a dry run
  and the tab has a non-empty id; a failing close request is only logged.
\<close>

definition close_original :: "env \<Rightarrow> config \<Rightarrow> tab \<Rightarrow> world \<Rightarrow> world" where
  "close_original e cfg t w =
     (case tab_id t of
        None \<Rightarrow> w
      | Some i \<Rightarrow>
          if \<not> dry_run cfg \<and> i \<noteq> [] then
            (let w1 = w\<lparr>close_requests := close_requests w @ [i]\<rparr>
             in if close_ok e i then w1 else emit Warning_close_failed w1)
          else w)"

definition launch :: "tab \<Rightarrow> ustr \<Rightarrow> world \<Rightarrow> world" where
  "launch t pdf_path w = w\<lparr>renders := renders w @ [(t, pdf_path)]\<rparr>"

text \<open>
  The handler of a failed attempt: a warning, then one second of sleep when another
  attempt follows (\<^verbatim>\<open>attempt < max_retries - 1\<close>), the final error otherwise.
\<close>

definition attempt_failed :: "config \<Rightarrow> ustr \<Rightarrow> nat option \<Rightarrow> nat \<Rightarrow> world \<Rightarrow> world" where
  "attempt_failed cfg pdf_path partial attempt w =
     (let w = (case partial of None \<Rightarrow> w | Some n \<Rightarrow> write_pdf pdf_path n w);
          w = emit (Warning_attempt_failed (attempt + 1)) w
      in if int attempt < max_retries cfg - 1 then sleep 1 w
         else emit (Error_gave_up (max_retries cfg)) w)"

text \<open>
  \<^verbatim>\<open>for attempt in range(self.config.max_retries)\<close>: \<open>left\<close> counts the iterations
  that remain, \<open>attempt\<close> is the loop variable. Falling out of the loop returns \<open>False\<close>.
\<close>

fun attempts :: "env \<Rightarrow> config \<Rightarrow> tab \<Rightarrow> ustr \<Rightarrow> nat \<Rightarrow> nat \<Rightarrow> world \<Rightarrow> bool \<times> world" where
  "attempts e cfg t pdf_path 0 attempt w = (False, w)"
| "attempts e cfg t pdf_path (Suc left) attempt w =
     (case render e (length (renders w)) of
        Rendered n \<Rightarrow>
          (True, close_original e cfg t (write_pdf pdf_path n (launch t pdf_path w)))
      | Failed partial \<Rightarrow>
          attempts e cfg t pdf_path left (attempt + 1)
            (attempt_failed cfg pdf_path partial attempt (launch t pdf_path w)))"

definition snap_and_close_tab :: "env \<Rightarrow> config \<Rightarrow> tab \<Rightarrow> ustr \<Rightarrow> world \<Rightarrow> bool \<times> world" where
  "snap_and_close_tab e cfg t pdf_path w =
     (if get_url t = [] then (False, emit Warning_no_url w)
      else attempts e cfg t pdf_path (nat (max_retries cfg)) 0 w)"

subsection \<open>File names\<close>

text \<open>\<^verbatim>\<open>f"{stem}_{counter}.pdf"\<close>, with the counter in decimal.\<close>

function digits :: "nat \<Rightarrow> ustr" where
  "digits n = (if n < 10 then [48 + n] else digits (n div 10) @ [48 + n mod 10])"
  by pat_completeness auto
termination
  by (relation "measure id") auto

definition numbered :: "ustr \<Rightarrow> nat \<Rightarrow> ustr" where
  "numbered stem counter = stem @ codes ''_'' @ digits counter @ codes ''.pdf''"

text \<open>
  The collision loop \<^verbatim>\<open>while pdf_path.exists(): ...\<close> ends because the directory
  holds finitely many files and the candidate names are pairwise different: decimal
  numerals determine their number.
\<close>

lemma digits_inj: "digits a = digits b \<Longrightarrow> a = b"
proof (induction a arbitrary: b rule: digits.induct)
  case (1 n)
  have ne: "\<And>k. digits k \<noteq> []"
    by (subst digits.simps) simp
  show ?case
  proof (cases "n < 10")
    case True
    then have b: "b < 10"
      using 1(2) ne [of "b div 10"]
      by (subst (asm) digits.simps, subst (asm) (2) digits.simps) (auto split: if_splits)
    then show ?thesis
      using 1(2) True by (subst (asm) digits.simps, subst (asm) (2) digits.simps) simp
  next
    case False
    then have b: "\<not> b < 10"
      using 1(2) ne [of "n div 10"]
      by (subst (asm) digits.simps, subst (asm) (2) digits.simps) (auto split: if_splits)
    then have "digits (n div 10) = digits (b div 10) \<and> n mod 10 = b mod 10"
      using 1(2) False by (subst (asm) digits.simps, subst (asm) (2) digits.simps) simp
    then have "n div 10 = b div 10 \<and> n mod 10 = b mod 10"
      using 1(1) False by blast
    then show ?thesis by (metis div_mult_mod_eq)
  qed
qed

lemma numbered_inj: "numbered stem a = numbered stem b \<Longrightarrow> a = b"
  by (simp add: numbered_def digits_inj)

lemma later_names_le:
  "length (filter (\<lambda>nm. \<exists>j>c. nm = numbered stem j) names)
     \<le> length (filter (\<lambda>nm. \<exists>j\<ge>c. nm = numbered stem j) names)"
  by (induction names) (auto intro: less_imp_le)

lemma later_names_less:
  "numbered stem c \<in> set names \<Longrightarrow>
     length (filter (\<lambda>nm. \<exists>j>c. nm = numbered stem j) names)
       < length (filter (\<lambda>nm. \<exists>j\<ge>c. nm = numbered stem j) names)"
proof (induction names)
  case Nil
  then show ?case by simp
next
  case (Cons a names)
  show ?case
  proof (cases "a = numbered stem c")
    case True
    then have "\<not> (\<exists>j>c. a = numbered stem j)" using numbered_inj by blast
    then show ?thesis
      using True later_names_le [of c stem names] by (auto simp: le_imp_less_Suc)
  next
    case False
    then have "numbered stem c \<in> set names" using Cons.prems by simp
    then show ?thesis using Cons.IH by (auto intro: less_imp_le)
  qed
qed

function find_free :: "ustr list \<Rightarrow> ustr \<Rightarrow> ustr \<Rightarrow> nat \<Rightarrow> ustr" where
  "find_free names stem pdf_path counter =
     (if pdf_path \<in> set names
      then find_free names stem (numbered stem counter) (Suc counter)
      else pdf_path)"
  by pat_completeness auto
termination
proof (relation "measure (\<lambda>(names, stem, pdf_path, counter).
         length (filter (\<lambda>nm. \<exists>j\<ge>counter. nm = numbered stem j) names)
         + (if pdf_path \<in> set names then 1 else 0))")
  show "wf (measure (\<lambda>(names, stem, pdf_path, counter).
         length (filter (\<lambda>nm. \<exists>j\<ge>counter. nm = numbered stem j) names)
         + (if pdf_path \<in> set names then 1 else 0)))"
    by simp
next
  fix names :: "ustr list" and stem pdf_path :: ustr and counter :: nat
  assume "pdf_path \<in> set names"
  moreover have "(\<lambda>nm. \<exists>j\<ge>Suc counter. nm = numbered stem j)
      = (\<lambda>nm. \<exists>j>counter. nm = numbered stem j)"
    by (auto simp: Suc_le_eq)
  ultimately show "((names, stem, numbered stem counter, Suc counter), names, stem, pdf_path, counter)
      \<in> measure (\<lambda>(names, stem, pdf_path, counter).
         length (filter (\<lambda>nm. \<exists>j\<ge>counter. nm = numbered stem j) names)
         + (if pdf_path \<in> set names then 1 else 0))"
    using later_names_less [of stem counter names] later_names_le [of counter stem names]
    by auto
qed

declare find_free.simps [simp del]

text \<open>
  The first candidate is the sanitized title; every later one is the title sanitized to
  ten characters less, an underscore and the counter, which starts at 1.
\<close>

definition pdf_path_for :: "env \<Rightarrow> config \<Rightarrow> ustr \<Rightarrow> world \<Rightarrow> ustr" where
  "pdf_path_for e cfg title w =
     (let safe_title = safe_filename (chars e) title (max_filename_length cfg);
          stem = safe_filename (chars e) title (max_filename_length cfg - 10)
      in find_free (map fst (pdfs w)) stem (safe_title @ codes ''.pdf'') 1)"

subsection \<open>The pipeline\<close>

text \<open>
  The body of the loop over the page tabs, on the state of the world and the counter
  \<open>processed\<close>, with the cutoff that \<open>process_tabs\<close> computed before the loop. Each
  \<open>continue\<close> of the source is a branch that returns the state (\<open>Inr\<close>); the error
  of the history lookup leaves the body (\<open>Inl\<close>) with the world as it is then.
\<close>

definition process_tab ::
  "env \<Rightarrow> config \<Rightarrow> int \<Rightarrow> tab \<Rightarrow> world \<times> nat \<Rightarrow> (error \<times> world) + (world \<times> nat)" where
  "process_tab e cfg cutoff_time t st =
     (let (w, processed) = st; url = get_url t; title = get_title t
      in if url = [] \<or> internal_url url then Inr (w, processed)
         else
           (case get_tab_history e url w of
              Inl raised \<Rightarrow> Inl raised
            | Inr (last_visit, w) \<Rightarrow>
                (case last_visit of
                   None \<Rightarrow> Inr (w, processed)
                 | Some visited \<Rightarrow>
                     if visited > cutoff_time then Inr (w, processed)
                     else
                       (let pdf_path = pdf_path_for e cfg title w;
                            w = emit (Info_archiving (dry_run cfg) title) w
                        in if dry_run cfg then Inr (w, processed + 1)
                           else
                             (let (success, w) = snap_and_close_tab e cfg t pdf_path w
                              in if success
                                 then Inr (emit Info_archived
                                             (store_locally e url title pdf_path (now e) w),
                                           processed + 1)
                                 else Inr (emit Error_not_archived w, processed))))))"

text \<open>The loop stops at the first tab whose body raises.\<close>

fun process_each ::
  "env \<Rightarrow> config \<Rightarrow> int \<Rightarrow> tab list \<Rightarrow> world \<times> nat \<Rightarrow> (error \<times> world) + (world \<times> nat)" where
  "process_each e cfg cutoff_time [] st = Inr st"
| "process_each e cfg cutoff_time (t # ts) st =
     (case process_tab e cfg cutoff_time t st of
        Inl raised \<Rightarrow> Inl raised
      | Inr st' \<Rightarrow> process_each e cfg cutoff_time ts st')"

definition world_of :: "(error \<times> world) + (world \<times> nat) \<Rightarrow> world" where
  "world_of r = (case r of Inl (err, w) \<Rightarrow> w | Inr (w, processed) \<Rightarrow> w)"

text \<open>
  \<open>process_tabs\<close> gives what the call does, the pair (processed, total) it returns or
  the error it raises, and the world after it. In the order of the source: the check
  that the history file exists, the cutoff, the day directory (created with its parents
  unless the run is a dry run), the tab list, the copy of the history database to a
  temporary file, the loop, and the removal of the temporary file, which is in a
  \<open>finally\<close> clause and so happens also when the loop raises. A failed copy returns before
  that clause is entered: what the copy left behind stays.
\<close>

definition process_tabs :: "env \<Rightarrow> config \<Rightarrow> world \<Rightarrow> (error + nat \<times> nat) \<times> world" where
  "process_tabs e cfg w =
     (if \<not> history_exists e then (Inr (0, 0), emit Error_history_not_found w)
      else
        (case cutoff e cfg of
           Inl err \<Rightarrow> (Inl err, w)
         | Inr cutoff_time \<Rightarrow>
             (let w = (if \<not> dry_run cfg then w\<lparr>root_dir := True, day_dir := True\<rparr> else w);
                  w = emit (Info_looking_for cutoff_time) w;
                  (tabs, w) = get_open_tabs e w
              in if tabs = [] then (Inr (0, 0), w)
                 else
                   (let page_tabs = filter is_page tabs;
                        w = emit (Info_found (length page_tabs)) w
                    in case copy_result e of
                         Copy_failed left_behind \<Rightarrow>
                           (Inr (0, length page_tabs),
                            emit Error_copy_history
                              (if left_behind
                               then w\<lparr>tmp_history := True, tmp_created := tmp_created w + 1\<rparr>
                               else w))
                       | Copied \<Rightarrow>
                           (case process_each e cfg cutoff_time page_tabs
                                   (w\<lparr>tmp_history := True, tmp_created := tmp_created w + 1\<rparr>, 0) of
                              Inl (err, w) \<Rightarrow> (Inl err, w\<lparr>tmp_history := False\<rparr>)
                            | Inr (w, processed) \<Rightarrow>
                                (Inr (processed, length page_tabs),
                                 w\<lparr>tmp_history := False\<rparr>))))))"

subsection \<open>Qualifying tabs\<close>

text \<open>
  A tab qualifies for archival when it passes the three guards of the loop body: its URL
  is neither empty nor internal to the browser, the history has an entry for it (with a
  time that is a \<open>datetime\<close>), and its last visit is not after the cutoff. The body reads
  a tab without an error unless it has a usable URL and a history entry whose time is
  not a \<open>datetime\<close>.
\<close>

definition usable_url :: "tab \<Rightarrow> bool" where
  "usable_url t \<longleftrightarrow> get_url t \<noteq> [] \<and> \<not> internal_url (get_url t)"

definition qualifies :: "env \<Rightarrow> int \<Rightarrow> tab \<Rightarrow> bool" where
  "qualifies e cutoff_time t \<longleftrightarrow>
     get_url t \<noteq> [] \<and> \<not> internal_url (get_url t)
     \<and> (case last_visit_time e (get_url t) of
          Visited visited \<Rightarrow> representable visited \<and> \<not> visited > cutoff_time
        | No_row \<Rightarrow> False
        | Db_error \<Rightarrow> False)"

definition overflows :: "env \<Rightarrow> tab \<Rightarrow> bool" where
  "overflows e t \<longleftrightarrow>
     get_url t \<noteq> [] \<and> \<not> internal_url (get_url t)
     \<and> (case last_visit_time e (get_url t) of
          Visited visited \<Rightarrow> \<not> representable visited
        | No_row \<Rightarrow> False
        | Db_error \<Rightarrow> False)"

section \<open>A sample run\<close>

text \<open>
  Six open tabs on day 100, with an idle threshold of 14 days, so that the cutoff is day
  86. Tabs A and E were last visited on day 80 and have titles that sanitize to the same
  name; B was last visited on day 86, exactly at the cutoff; C is a browser page; D was
  visited on day 99; S is not of type \<open>page\<close>. The first rendering attempt of the run
  completes, the next three fail, the later ones complete.
\<close>

definition day :: int where
  "day = 86400000000"

definition page :: "string \<Rightarrow> string \<Rightarrow> string \<Rightarrow> tab" where
  "page i u s = \<lparr>tab_id = Some (codes i), tab_url = Some (codes u), tab_title = Some (codes s),
                tab_type = Some (codes ''page'')\<rparr>"

definition tab_a :: tab where "tab_a = page ''A'' ''http://a'' ''News: today''"
definition tab_b :: tab where "tab_b = page ''B'' ''http://b'' ''Old''"
definition tab_c :: tab where "tab_c = page ''C'' ''chrome://settings'' ''Settings''"
definition tab_d :: tab where "tab_d = page ''D'' ''http://d'' ''Fresh''"
definition tab_e :: tab where "tab_e = page ''E'' ''http://e'' ''News_ today''"
definition tab_s :: tab where
  "tab_s = (page ''S'' ''http://s'' ''Worker'')\<lparr>tab_type := Some (codes ''service_worker'')\<rparr>"

definition demo :: env where
  "demo = \<lparr>chars = ascii_db, now = 100 * day, history_exists = True,
     tabs_response = Some [tab_a, tab_s, tab_b, tab_c, tab_d, tab_e],
     copy_result = Copied,
     last_visit_time = (\<lambda>u. if u = codes ''http://d'' then Visited (99 * day)
                             else if u = codes ''http://b'' then Visited (86 * day)
                             else Visited (80 * day)),
     render = (\<lambda>i. if i = 1 \<or> i = 2 \<or> i = 3 then Failed None else Rendered 1000),
     close_ok = (\<lambda>i. True), netloc = drop 7\<rparr>"

definition two_weeks :: config where
  "two_weeks = Config_init\<lparr>days_idle := 14\<rparr>"


definition after_a :: world where
  "after_a = world_of (process_tab demo two_weeks (86 * day) tab_a (fresh, 0))"

text \<open>
  Variations: the endpoint is down; the history cannot be copied; no rendering works;
  only the first rendering attempt fails; the history gives tab B a time before year 1;
  the idle threshold is a million days.
\<close>

definition offline :: env where
  "offline = demo\<lparr>tabs_response := None\<rparr>"

definition locked :: env where
  "locked = demo\<lparr>copy_result := Copy_failed False\<rparr>"

definition failing :: env where
  "failing = demo\<lparr>render := (\<lambda>i. Failed None)\<rparr>"


definition flaky :: env where
  "flaky = demo\<lparr>render := (\<lambda>i. if i = 0 then Failed None else Rendered 1000)\<rparr>"



section \<open>Properties of the sanitizer\<close>

subsection \<open>Which characters can occur\<close>

lemma set_collapse: "set (collapse db s) \<subseteq> insert 32 (set s)"
proof (induction db s rule: collapse.induct)
  case (1 db)
  then show ?case by simp
next
  case (2 db c cs)
  then show ?case
    using set_dropWhileD [of _ "is_space db" cs] by (auto split: if_splits)
qed

lemma set_strip: "set (strip db s) \<subseteq> set s"
proof
  fix c
  assume "c \<in> set (strip db s)"
  then have "c \<in> set (dropWhile (is_space db) (rev (dropWhile (is_space db) s)))"
    by (simp add: strip_def)
  then have "c \<in> set (rev (dropWhile (is_space db) s))"
    by (rule set_dropWhileD)
  then have "c \<in> set (dropWhile (is_space db) s)"
    by simp
  then show "c \<in> set s"
    by (rule set_dropWhileD)
qed

lemma unreserved_sub: "c \<in> set (sub_reserved s) \<Longrightarrow> \<not> reserved c"
  by (auto simp: sub_reserved_def reserved_def)

lemma unreserved_clean: "c \<in> set (clean db s) \<Longrightarrow> \<not> reserved c"
proof -
  assume "c \<in> set (clean db s)"
  then have "c \<in> set (collapse db (drop_other db (sub_reserved s)))"
    unfolding clean_def using set_strip by blast
  then have "c = 32 \<or> c \<in> set (drop_other db (sub_reserved s))"
    using set_collapse by blast
  then have "c = 32 \<or> c \<in> set (sub_reserved s)"
    by (auto simp: drop_other_def)
  then show ?thesis
    using unreserved_sub by (auto simp: reserved_def)
qed

lemma set_tl_subset: "set (tl xs) \<subseteq> set xs"
  by (cases xs) auto

lemma set_dropWhile_subset: "set (dropWhile P xs) \<subseteq> set xs"
  by (auto dest: set_dropWhileD)

lemma set_rsplit1_head: "set (rsplit1_head s) \<subseteq> set s"
proof -
  have "set (tl (dropWhile (\<lambda>c. c \<noteq> 32) (rev s))) \<subseteq> set (rev s)"
    using set_tl_subset set_dropWhile_subset by (rule subset_trans)
  then show ?thesis by (simp add: rsplit1_head_def)
qed

lemma length_rsplit1_head: "length (rsplit1_head s) \<le> length s"
proof -
  have "length (dropWhile (\<lambda>c. c \<noteq> 32) (rev s)) \<le> length (rev s)"
    by (rule length_dropWhile_le)
  then show ?thesis by (auto simp: rsplit1_head_def)
qed

lemma set_slice_to: "set (slice_to s n) \<subseteq> set s"
  by (simp add: slice_to_def set_take_subset)

lemma untitled_codes: "codes ''untitled'' = [117, 110, 116, 105, 116, 108, 101, 100]"
  by (simp add: codes_def)

lemma safe_filename_unreserved: "c \<in> set (safe_filename db s m) \<Longrightarrow> \<not> reserved c"
proof -
  assume a: "c \<in> set (safe_filename db s m)"
  have u: "\<And>d. d \<in> set (codes ''untitled'') \<Longrightarrow> \<not> reserved d"
    by (auto simp: untitled_codes reserved_def)
  have t: "\<And>d. d \<in> set (rsplit1_head (slice_to (clean db s) m)) \<Longrightarrow> \<not> reserved d"
    using set_rsplit1_head set_slice_to unreserved_clean by blast
  from a show ?thesis
    using u t unreserved_clean [of c db s]
    by (auto simp: safe_filename_def Let_def split: if_splits)
qed

lemma safe_filename_length:
  assumes "0 \<le> m"
  shows "int (length (safe_filename db s m)) \<le> max m 8"
proof -
  have "length (rsplit1_head (slice_to (clean db s) m)) \<le> length (slice_to (clean db s) m)"
    by (rule length_rsplit1_head)
  also have "\<dots> \<le> nat m" using assms by (simp add: slice_to_def)
  finally have "int (length (rsplit1_head (slice_to (clean db s) m))) \<le> m"
    using assms by linarith
  then show ?thesis
    by (auto simp: safe_filename_def Let_def untitled_codes)
qed

subsection \<open>The normal form of a cleaned title\<close>

text \<open>
  A cleaned title is \<open>tidy\<close>: it has no reserved character, every character passes the
  filter, the only whitespace is the blank, blanks are isolated, and none stands at
  either end. The three substitutions leave a tidy string as it is.
\<close>

fun sep :: "unicode_db \<Rightarrow> ustr \<Rightarrow> bool" where
  "sep db [] = True"
| "sep db [c] = (is_space db c \<longrightarrow> c = 32)"
| "sep db (c # d # cs) = ((is_space db c \<longrightarrow> c = 32 \<and> \<not> is_space db d) \<and> sep db (d # cs))"

definition tidy :: "unicode_db \<Rightarrow> ustr \<Rightarrow> bool" where
  "tidy db s \<longleftrightarrow>
     (\<forall>c\<in>set s. \<not> reserved c \<and> keep_char db c) \<and> sep db s \<and>
     (s \<noteq> [] \<longrightarrow> \<not> is_space db (hd s) \<and> \<not> is_space db (last s))"

lemma dropWhile_hd: "xs \<noteq> [] \<Longrightarrow> \<not> P (hd xs) \<Longrightarrow> dropWhile P xs = xs"
  by (cases xs) auto

lemma is_space_32: "is_space db 32"
  by (simp add: is_space_def)

lemma sep_Cons: "sep db (c # cs) \<Longrightarrow> sep db cs"
  by (cases cs) auto

lemma sep_append_left: "sep db (xs @ ys) \<Longrightarrow> sep db xs"
proof (induction db xs rule: sep.induct)
  case (1 db)
  then show ?case by simp
next
  case (2 db c)
  then show ?case by (cases ys) auto
next
  case (3 db c d cs)
  then show ?case by auto
qed

lemma sep_append_right: "sep db (xs @ ys) \<Longrightarrow> sep db ys"
  by (induction xs) (auto dest: sep_Cons)

lemma sep_space: "sep db s \<Longrightarrow> c \<in> set s \<Longrightarrow> is_space db c \<Longrightarrow> c = 32"
  by (induction db s rule: sep.induct) auto

lemma sep_adjacent: "sep db (xs @ a # b # ys) \<Longrightarrow> is_space db a \<Longrightarrow> \<not> is_space db b"
  using sep_append_right [of db xs "a # b # ys"] by auto

lemma collapse_hd: "s \<noteq> [] \<Longrightarrow> \<not> is_space db (hd s) \<Longrightarrow> collapse db s = hd s # collapse db (tl s)"
  by (cases s) auto

lemma sep_collapse: "sep db (collapse db s)"
proof (induction db s rule: collapse.induct)
  case (1 db)
  then show ?case by simp
next
  case (2 db c cs)
  show ?case
  proof (cases "is_space db c")
    case True
    let ?r = "dropWhile (is_space db) cs"
    have ih: "sep db (collapse db ?r)" using 2 True by simp
    show ?thesis
    proof (cases ?r)
      case Nil
      have "collapse db (c # cs) = 32 # collapse db ?r" using True by simp
      also have "\<dots> = [32]" by (simp only: Nil collapse.simps)
      finally show ?thesis by (simp add: is_space_32)
    next
      case (Cons d ds)
      then have "\<not> is_space db d"
        using hd_dropWhile [of "is_space db" cs] by auto
      then have "collapse db ?r = d # collapse db ds"
        using Cons by simp
      then show ?thesis using True ih \<open>\<not> is_space db d\<close> by simp
    qed
  next
    case False
    then have ih: "sep db (collapse db cs)" using 2 by simp
    then show ?thesis using False by (cases "collapse db cs") auto
  qed
qed

lemma collapse_sep: "sep db s \<Longrightarrow> collapse db s = s"
proof (induction db s rule: sep.induct)
  case (1 db)
  then show ?case by simp
next
  case (2 db c)
  then show ?case by simp
next
  case (3 db c d cs)
  then show ?case by auto
qed

lemma rev_dropWhile_prefix: "s = rev (dropWhile P (rev s)) @ rev (takeWhile P (rev s))"
proof -
  have "rev (dropWhile P (rev s)) @ rev (takeWhile P (rev s))
          = rev (takeWhile P (rev s) @ dropWhile P (rev s))"
    by (simp only: rev_append)
  also have "\<dots> = rev (rev s)"
    by (simp only: takeWhile_dropWhile_id)
  finally show ?thesis by simp
qed

lemma strip_ends:
  "strip db s \<noteq> [] \<Longrightarrow> \<not> is_space db (hd (strip db s)) \<and> \<not> is_space db (last (strip db s))"
proof -
  assume ne: "strip db s \<noteq> []"
  let ?z = "dropWhile (is_space db) s"
  let ?d = "dropWhile (is_space db) (rev ?z)"
  have r: "strip db s = rev ?d" by (simp add: strip_def)
  have dne: "?d \<noteq> []" using ne r by simp
  then have l: "\<not> is_space db (hd ?d)" using hd_dropWhile by blast
  have zne: "?z \<noteq> []" using dne by (metis dropWhile.simps(1) rev.simps(1))
  then have hz: "\<not> is_space db (hd ?z)" using hd_dropWhile by blast
  have "?z = rev ?d @ rev (takeWhile (is_space db) (rev ?z))"
    by (rule rev_dropWhile_prefix)
  then have "hd ?z = hd (rev ?d)" using dne by (metis hd_append2 rev_is_Nil_conv)
  then show ?thesis using r l hz dne by (simp add: last_rev)
qed

lemma sep_strip: "sep db s \<Longrightarrow> sep db (strip db s)"
proof -
  assume a: "sep db s"
  let ?z = "dropWhile (is_space db) s"
  have "s = takeWhile (is_space db) s @ ?z" by simp
  then have "sep db ?z" using a sep_append_right by metis
  moreover have "?z = strip db s @ rev (takeWhile (is_space db) (rev ?z))"
    unfolding strip_def by (rule rev_dropWhile_prefix)
  ultimately show ?thesis using sep_append_left by metis
qed

lemma strip_id: "s = [] \<or> (\<not> is_space db (hd s) \<and> \<not> is_space db (last s)) \<Longrightarrow> strip db s = s"
proof (cases s)
  case Nil
  then show ?thesis by (simp add: strip_def)
next
  case (Cons a as)
  assume "s = [] \<or> (\<not> is_space db (hd s) \<and> \<not> is_space db (last s))"
  then have h: "\<not> is_space db (hd s)" and l: "\<not> is_space db (last s)" using Cons by auto
  have 1: "dropWhile (is_space db) s = s" using h Cons by simp
  have "rev s \<noteq> []" using Cons by simp
  moreover have "hd (rev s) = last s" using Cons by (simp add: hd_rev)
  ultimately have "dropWhile (is_space db) (rev s) = rev s"
    using l by (simp add: dropWhile_hd)
  then show ?thesis using 1 by (simp add: strip_def)
qed

lemma keep_clean: "c \<in> set (clean db s) \<Longrightarrow> keep_char db c"
proof -
  assume "c \<in> set (clean db s)"
  then have "c \<in> set (collapse db (drop_other db (sub_reserved s)))"
    unfolding clean_def using set_strip by blast
  then have "c = 32 \<or> c \<in> set (drop_other db (sub_reserved s))"
    using set_collapse by blast
  then show ?thesis
    by (auto simp: drop_other_def keep_char_def is_space_32)
qed

lemma tidy_clean: "tidy db (clean db s)"
  unfolding tidy_def
proof (intro conjI ballI impI)
  fix c assume "c \<in> set (clean db s)"
  then show "\<not> reserved c" by (rule unreserved_clean)
next
  fix c assume "c \<in> set (clean db s)"
  then show "keep_char db c" by (rule keep_clean)
next
  show "sep db (clean db s)" unfolding clean_def by (rule sep_strip) (rule sep_collapse)
next
  assume "clean db s \<noteq> []"
  then show "\<not> is_space db (hd (clean db s))" unfolding clean_def using strip_ends by blast
next
  assume "clean db s \<noteq> []"
  then show "\<not> is_space db (last (clean db s))" unfolding clean_def using strip_ends by blast
qed

lemma clean_tidy: "tidy db s \<Longrightarrow> clean db s = s"
proof -
  assume t: "tidy db s"
  have 1: "sub_reserved s = s"
    using t by (auto simp: tidy_def sub_reserved_def intro: map_idI)
  have 2: "drop_other db s = s"
    using t by (auto simp: tidy_def drop_other_def)
  have 3: "collapse db s = s"
    using t by (simp add: tidy_def collapse_sep)
  have 4: "strip db s = s"
    using t by (intro strip_id) (auto simp: tidy_def)
  show ?thesis by (simp add: clean_def 1 2 3 4)
qed

subsection \<open>Truncation\<close>

lemma rsplit1_head_split: "32 \<in> set s \<Longrightarrow> \<exists>zs. s = rsplit1_head s @ 32 # zs"
proof -
  assume a: "32 \<in> set s"
  let ?d = "dropWhile (\<lambda>c. c \<noteq> 32) (rev s)"
  have ne: "?d \<noteq> []" using a by (simp add: dropWhile_eq_Nil_conv)
  then have "\<not> hd ?d \<noteq> 32" by (rule hd_dropWhile)
  then have d: "?d = 32 # tl ?d" using ne by (cases ?d) auto
  have "s = rev ?d @ rev (takeWhile (\<lambda>c. c \<noteq> 32) (rev s))"
    by (rule rev_dropWhile_prefix)
  also have "rev ?d = rev (tl ?d) @ [32]" by (subst d) simp
  finally have "s = rev (tl ?d) @ 32 # rev (takeWhile (\<lambda>c. c \<noteq> 32) (rev s))" by simp
  then show ?thesis using a by (auto simp: rsplit1_head_def)
qed

lemma tidy_rsplit1_head:
  assumes "tidy db (p @ ws)"
  shows "tidy db (rsplit1_head p)"
proof -
  let ?r = "rsplit1_head p"
  obtain zs where p: "p = ?r @ zs" and z: "32 \<in> set p \<Longrightarrow> zs \<noteq> [] \<and> hd zs = 32"
  proof (cases "32 \<in> set p")
    case True
    then obtain ys where "p = ?r @ 32 # ys" using rsplit1_head_split by blast
    then show ?thesis using that [of "32 # ys"] by simp
  next
    case False
    then show ?thesis using that [of "[]"] by (simp add: rsplit1_head_def)
  qed
  have n: "p @ ws = ?r @ (zs @ ws)" using p by simp
  have chars: "\<forall>c\<in>set ?r. \<not> reserved c \<and> keep_char db c"
    using assms set_rsplit1_head [of p] by (auto simp: tidy_def)
  have s: "sep db ?r"
    using assms n sep_append_left [of db ?r "zs @ ws"] by (simp add: tidy_def)
  have e: "\<not> is_space db (hd ?r) \<and> \<not> is_space db (last ?r)" if ne: "?r \<noteq> []"
  proof
    have "hd (p @ ws) = hd ?r" using n ne by (metis hd_append2)
    moreover have "p @ ws \<noteq> []" using n ne by (metis append_is_Nil_conv)
    ultimately show "\<not> is_space db (hd ?r)" using assms by (simp add: tidy_def)
  next
    show "\<not> is_space db (last ?r)"
    proof
      assume sp: "is_space db (last ?r)"
      have full: "sep db (p @ ws)" using assms by (simp add: tidy_def)
      show False
      proof (cases "32 \<in> set p")
        case True
        then obtain ys where zs: "zs = 32 # ys" using z by (cases zs) auto
        have eq: "p @ ws = butlast ?r @ last ?r # 32 # (ys @ ws)"
          using n zs ne by (metis append_Cons append_assoc append_butlast_last_id append_Nil)
        have "sep db (butlast ?r @ last ?r # 32 # (ys @ ws))"
          using full by (simp only: eq [symmetric])
        then have "\<not> is_space db 32"
          using sp by (rule sep_adjacent)
        then show False by (simp add: is_space_32)
      next
        case False
        have "last ?r \<in> set p" using ne set_rsplit1_head [of p] by auto
        then have "last ?r = 32" using full sp sep_space [of db "p @ ws" "last ?r"] by simp
        then show False using False \<open>last ?r \<in> set p\<close> by simp
      qed
    qed
  qed
  show ?thesis using chars s e by (simp add: tidy_def)
qed

lemma tidy_untitled: "tidy db (codes ''untitled'')"
  by (simp add: tidy_def untitled_codes reserved_def keep_char_def is_word_def is_space_def)

lemma safe_filename_tidy:
  assumes "tidy db s" and "int (length s) \<le> m" and "s \<noteq> []"
  shows "safe_filename db s m = s"
  using assms by (simp add: safe_filename_def clean_tidy)
section \<open>Properties of the pipeline\<close>

subsection \<open>What each operation leaves alone\<close>

lemmas world_ops = emit_def write_pdf_def append_index_def ensure_html_header_def
  store_locally_def close_original_def launch_def attempt_failed_def sleep_def

lemma emit_frame [simp]:
  "index (emit r w) = index w"
  "pdfs (emit r w) = pdfs w"
  "renders (emit r w) = renders w"
  "sleeps (emit r w) = sleeps w"
  "close_requests (emit r w) = close_requests w"
  "root_dir (emit r w) = root_dir w"
  "day_dir (emit r w) = day_dir w"
  "tmp_history (emit r w) = tmp_history w"
  "tmp_created (emit r w) = tmp_created w"
  "logged (emit r w) = logged w @ [r]"
  by (simp_all add: emit_def)

lemma close_original_frame [simp]:
  "index (close_original e cfg t w) = index w"
  "pdfs (close_original e cfg t w) = pdfs w"
  "renders (close_original e cfg t w) = renders w"
  "sleeps (close_original e cfg t w) = sleeps w"
  "root_dir (close_original e cfg t w) = root_dir w"
  "day_dir (close_original e cfg t w) = day_dir w"
  "tmp_history (close_original e cfg t w) = tmp_history w"
  "tmp_created (close_original e cfg t w) = tmp_created w"
  by (simp_all add: close_original_def Let_def split: option.splits)

lemma attempt_failed_frame [simp]:
  "index (attempt_failed cfg p partial a w) = index w"
  "renders (attempt_failed cfg p partial a w) = renders w"
  "close_requests (attempt_failed cfg p partial a w) = close_requests w"
  "root_dir (attempt_failed cfg p partial a w) = root_dir w"
  "day_dir (attempt_failed cfg p partial a w) = day_dir w"
  "tmp_history (attempt_failed cfg p partial a w) = tmp_history w"
  "tmp_created (attempt_failed cfg p partial a w) = tmp_created w"
  by (simp_all add: attempt_failed_def sleep_def write_pdf_def Let_def split: option.splits)

lemma store_locally_frame [simp]:
  "pdfs (store_locally e u s p at w) = pdfs w"
  "renders (store_locally e u s p at w) = renders w"
  "sleeps (store_locally e u s p at w) = sleeps w"
  "close_requests (store_locally e u s p at w) = close_requests w"
  "logged (store_locally e u s p at w) = logged w"
  "day_dir (store_locally e u s p at w) = day_dir w"
  "tmp_history (store_locally e u s p at w) = tmp_history w"
  "tmp_created (store_locally e u s p at w) = tmp_created w"
  by (simp_all add: store_locally_def ensure_html_header_def append_index_def Let_def)

lemma rows_of_append: "rows_of (ls @ ms) = rows_of ls @ rows_of ms"
  by (induction ls rule: rows_of.induct) simp_all

lemma store_locally_rows:
  "index_rows (store_locally e u s p at w)
     = index_rows w @ [\<lparr>rec_time = at, rec_title = s, rec_url = u, rec_domain = netloc e u,
                         rec_size = (case map_of (pdfs w) p of Some n \<Rightarrow> n | None \<Rightarrow> 0),
                         rec_pdf = p\<rparr>]"
  by (cases "index w")
     (simp_all add: index_rows_def store_locally_def ensure_html_header_def append_index_def
        Let_def rows_of_append)

subsection \<open>The retry loop\<close>

lemma attempts_preserves:
  assumes "P w"
    and "\<And>w. P w \<Longrightarrow> P (launch t p w)"
    and "\<And>w n. P w \<Longrightarrow> P (write_pdf p n w)"
    and "\<And>w a partial. P w \<Longrightarrow> P (attempt_failed cfg p partial a w)"
    and "\<And>w. P w \<Longrightarrow> P (close_original e cfg t w)"
  shows "P (snd (attempts e cfg t p left a w))"
  using assms(1)
proof (induction left arbitrary: a w)
  case 0
  then show ?case by simp
next
  case (Suc left)
  show ?case
  proof (cases "render e (length (renders w))")
    case (Rendered n)
    then show ?thesis using Suc.prems assms(2,3,5) by simp
  next
    case (Failed partial)
    have "P (attempt_failed cfg p partial a (launch t p w))"
      using Suc.prems assms(2,4) by simp
    then show ?thesis using Failed Suc.IH by simp
  qed
qed

lemma attempts_index: "index (snd (attempts e cfg t p left a w)) = index w"
  by (rule attempts_preserves [where P = "\<lambda>v. index v = index w"])
     (simp_all add: launch_def write_pdf_def)

lemma attempts_dirs:
  "root_dir (snd (attempts e cfg t p left a w)) = root_dir w
   \<and> day_dir (snd (attempts e cfg t p left a w)) = day_dir w
   \<and> tmp_history (snd (attempts e cfg t p left a w)) = tmp_history w
   \<and> tmp_created (snd (attempts e cfg t p left a w)) = tmp_created w"
  by (rule attempts_preserves [where P = "\<lambda>v. root_dir v = root_dir w \<and> day_dir v = day_dir w
         \<and> tmp_history v = tmp_history w \<and> tmp_created v = tmp_created w"])
     (simp_all add: launch_def write_pdf_def)

lemma attempts_names:
  "set (map fst (pdfs w)) \<subseteq> set (map fst (pdfs (snd (attempts e cfg t p left a w))))"
  by (rule attempts_preserves [where P = "\<lambda>v. set (map fst (pdfs w)) \<subseteq> set (map fst (pdfs v))"])
     (auto simp: world_ops Let_def split: option.splits)


lemma attempts_written:
  "fst (attempts e cfg t p left a w) \<Longrightarrow>
     p \<in> set (map fst (pdfs (snd (attempts e cfg t p left a w))))"
proof (induction left arbitrary: a w)
  case 0
  then show ?case by simp
next
  case (Suc left)
  then show ?case
    by (cases "render e (length (renders w))") (simp_all add: write_pdf_def)
qed

lemma attempts_count:
  assumes "attempt + left = nat (max_retries cfg)"
  shows "\<exists>k\<le>left.
           renders (snd (attempts e cfg t p left attempt w)) = renders w @ replicate k (t, p)
         \<and> sleeps (snd (attempts e cfg t p left attempt w)) = sleeps w @ replicate (k - 1) 1
         \<and> (\<not> fst (attempts e cfg t p left attempt w) \<longrightarrow> k = left)
         \<and> (0 < left \<longrightarrow> 0 < k)"
  using assms
proof (induction left arbitrary: attempt w)
  case 0
  then show ?case by simp
next
  case (Suc left)
  show ?case
  proof (cases "render e (length (renders w))")
    case (Rendered n)
    have "renders (snd (attempts e cfg t p (Suc left) attempt w)) = renders w @ replicate 1 (t, p)"
      and "sleeps (snd (attempts e cfg t p (Suc left) attempt w)) = sleeps w @ replicate (1 - 1) 1"
      and "fst (attempts e cfg t p (Suc left) attempt w)"
      using Rendered by (simp_all add: launch_def write_pdf_def)
    then show ?thesis by (intro exI [of _ 1]) simp
  next
    case (Failed partial)
    let ?w = "attempt_failed cfg p partial attempt (launch t p w)"
    have step: "attempts e cfg t p (Suc left) attempt w = attempts e cfg t p left (attempt + 1) ?w"
      using Failed by simp
    have "(attempt + 1) + left = nat (max_retries cfg)" using Suc.prems by simp
    then obtain k where k: "k \<le> left"
      "renders (snd (attempts e cfg t p left (attempt + 1) ?w)) = renders ?w @ replicate k (t, p)"
      "sleeps (snd (attempts e cfg t p left (attempt + 1) ?w)) = sleeps ?w @ replicate (k - 1) 1"
      "\<not> fst (attempts e cfg t p left (attempt + 1) ?w) \<longrightarrow> k = left"
      "0 < left \<longrightarrow> 0 < k"
      using Suc.IH by blast
    have r: "renders ?w = renders w @ [(t, p)]" by (simp add: launch_def)
    have s: "sleeps ?w = (if left = 0 then sleeps w else sleeps w @ [1])"
      using Suc.prems by (auto simp: world_ops Let_def split: option.splits)
    have k0: "left = 0 \<Longrightarrow> k = 0" using k(1) by simp
    have "renders (snd (attempts e cfg t p (Suc left) attempt w)) = renders w @ replicate (Suc k) (t, p)"
      using step k(2) r by (simp add: replicate_append_same)
    moreover have "sleeps (snd (attempts e cfg t p (Suc left) attempt w)) = sleeps w @ replicate (Suc k - 1) 1"
    proof (cases "left = 0")
      case True
      then show ?thesis using step k(3) s k0 by simp
    next
      case False
      then have "sleeps ?w @ replicate (k - 1) 1 = sleeps w @ replicate (Suc (k - 1)) (1::nat)"
        using s by simp
      moreover have "0 < k" using False k(5) by simp
      ultimately show ?thesis using step k(3) by (cases k) auto
    qed
    moreover have "\<not> fst (attempts e cfg t p (Suc left) attempt w) \<longrightarrow> Suc k = Suc left"
      using step k(4) by simp
    ultimately show ?thesis using k(1) by (intro exI [of _ "Suc k"]) simp
  qed
qed

lemma attempts_all_fail:
  "(\<forall>i<left. \<exists>partial. render e (length (renders w) + i) = Failed partial) \<Longrightarrow>
     \<not> fst (attempts e cfg t p left a w)
     \<and> close_requests (snd (attempts e cfg t p left a w)) = close_requests w"
proof (induction left arbitrary: a w)
  case 0
  then show ?case by simp
next
  case (Suc left)
  from Suc.prems obtain partial where f: "render e (length (renders w)) = Failed partial"
    by (metis add.right_neutral zero_less_Suc)
  let ?w = "attempt_failed cfg p partial a (launch t p w)"
  have "\<forall>i<left. \<exists>partial. render e (length (renders ?w) + i) = Failed partial"
  proof (intro allI impI)
    fix i assume "i < left"
    then have "\<exists>partial. render e (length (renders w) + Suc i) = Failed partial"
      using Suc.prems by (metis Suc_less_eq)
    then show "\<exists>partial. render e (length (renders ?w) + i) = Failed partial"
      by (simp add: launch_def)
  qed
  then have "\<not> fst (attempts e cfg t p left (a + 1) ?w)
     \<and> close_requests (snd (attempts e cfg t p left (a + 1) ?w)) = close_requests ?w"
    by (rule Suc.IH)
  then show ?case using f by (simp add: launch_def)
qed

lemma attempts_gave_up:
  "a + left = nat (max_retries cfg) \<Longrightarrow> 0 < left \<Longrightarrow> \<not> fst (attempts e cfg t p left a w) \<Longrightarrow>
     last (logged (snd (attempts e cfg t p left a w))) = Error_gave_up (max_retries cfg)"
proof (induction left arbitrary: a w)
  case 0
  then show ?case by simp
next
  case (Suc left)
  from Suc.prems(3) obtain partial where f: "render e (length (renders w)) = Failed partial"
    by (cases "render e (length (renders w))") auto
  let ?w = "attempt_failed cfg p partial a (launch t p w)"
  have step: "attempts e cfg t p (Suc left) a w = attempts e cfg t p left (a + 1) ?w"
    using f by simp
  show ?case
  proof (cases left)
    case 0
    then have "int a = max_retries cfg - 1" using Suc.prems(1) by auto
    then have "last (logged ?w) = Error_gave_up (max_retries cfg)"
      by (simp add: attempt_failed_def Let_def)
    then show ?thesis using step 0 by simp
  next
    case (Suc m)
    then show ?thesis using step Suc.IH [of "a + 1" ?w] Suc.prems by simp
  qed
qed

lemma attempts_answers:
  "\<exists>k. renders (snd (attempts e cfg t p left a w)) = renders w @ replicate k (t, p)
     \<and> (\<forall>i<k - 1. \<exists>partial. render e (length (renders w) + i) = Failed partial)
     \<and> (fst (attempts e cfg t p left a w) \<longrightarrow>
          0 < k \<and> (\<exists>n. render e (length (renders w) + (k - 1)) = Rendered n))
     \<and> (\<not> fst (attempts e cfg t p left a w) \<longrightarrow>
          (\<forall>i<k. \<exists>partial. render e (length (renders w) + i) = Failed partial))"
proof (induction left arbitrary: a w)
  case 0
  then show ?case by (intro exI [of _ 0]) simp
next
  case (Suc left)
  show ?case
  proof (cases "render e (length (renders w))")
    case (Rendered n)
    then show ?thesis by (intro exI [of _ 1]) (simp add: launch_def write_pdf_def)
  next
    case (Failed partial)
    let ?w = "attempt_failed cfg p partial a (launch t p w)"
    let ?r = "attempts e cfg t p left (a + 1) ?w"
    have step: "attempts e cfg t p (Suc left) a w = ?r"
      using Failed by simp
    have len: "length (renders ?w) = Suc (length (renders w))"
      and rw: "renders ?w = renders w @ [(t, p)]"
      by (simp_all add: launch_def)
    obtain k where k: "renders (snd ?r) = renders ?w @ replicate k (t, p)"
      "\<forall>i<k - 1. \<exists>partial. render e (length (renders ?w) + i) = Failed partial"
      "fst ?r \<longrightarrow> 0 < k \<and> (\<exists>n. render e (length (renders ?w) + (k - 1)) = Rendered n)"
      "\<not> fst ?r \<longrightarrow> (\<forall>i<k. \<exists>partial. render e (length (renders ?w) + i) = Failed partial)"
      using Suc.IH [of "a + 1" ?w] by blast
    have 1: "renders (snd ?r) = renders w @ replicate (Suc k) (t, p)"
      using k(1) rw by (simp add: replicate_append_same)
    have 2: "\<exists>partial. render e (length (renders w) + i) = Failed partial" if "i < Suc k - 1" for i
    proof (cases i)
      case 0
      then show ?thesis using Failed by simp
    next
      case (Suc j)
      then have "j < k - 1" using that by simp
      then show ?thesis using k(2) Suc len by simp
    qed
    have 3: "0 < Suc k \<and> (\<exists>n. render e (length (renders w) + (Suc k - 1)) = Rendered n)" if "fst ?r"
    proof -
      from that k(3) have pos: "0 < k" by simp
      from that k(3) obtain m where m: "render e (length (renders ?w) + (k - 1)) = Rendered m"
        by blast
      have "length (renders ?w) + (k - 1) = length (renders w) + (Suc k - 1)"
        using pos by (simp only: len)
      then have "render e (length (renders w) + (Suc k - 1)) = Rendered m"
        using m by (simp only:)
      then show ?thesis by blast
    qed
    have 4: "\<exists>partial. render e (length (renders w) + i) = Failed partial"
      if "\<not> fst ?r" and "i < Suc k" for i
    proof (cases i)
      case 0
      then show ?thesis using Failed by simp
    next
      case (Suc j)
      then have "j < k" using that(2) by simp
      then show ?thesis using k(4) that(1) Suc len by simp
    qed
    show ?thesis
      unfolding step using 1 2 3 4 by (intro exI [of _ "Suc k"]) blast
  qed
qed

subsection \<open>The rendering step\<close>

lemma snap_index: "index (snd (snap_and_close_tab e cfg t p w)) = index w"
  by (simp add: snap_and_close_tab_def attempts_index)

lemma snap_dirs:
  "root_dir (snd (snap_and_close_tab e cfg t p w)) = root_dir w
   \<and> day_dir (snd (snap_and_close_tab e cfg t p w)) = day_dir w
   \<and> tmp_history (snd (snap_and_close_tab e cfg t p w)) = tmp_history w
   \<and> tmp_created (snd (snap_and_close_tab e cfg t p w)) = tmp_created w"
  by (simp add: snap_and_close_tab_def attempts_dirs)

lemma snap_names:
  "set (map fst (pdfs w)) \<subseteq> set (map fst (pdfs (snd (snap_and_close_tab e cfg t p w))))"
  using attempts_names [of w e cfg t p] by (simp add: snap_and_close_tab_def)

lemma snap_written:
  "fst (snap_and_close_tab e cfg t p w) \<Longrightarrow>
     p \<in> set (map fst (pdfs (snd (snap_and_close_tab e cfg t p w))))"
  using attempts_written [of e cfg t p "nat (max_retries cfg)" 0 w]
  by (simp add: snap_and_close_tab_def split: if_splits)


lemma snap_count:
  "\<exists>k\<le>nat (max_retries cfg).
      renders (snd (snap_and_close_tab e cfg t p w)) = renders w @ replicate k (t, p)
    \<and> sleeps (snd (snap_and_close_tab e cfg t p w)) = sleeps w @ replicate (k - 1) 1
    \<and> (\<forall>i<k - 1. \<exists>partial. render e (length (renders w) + i) = Failed partial)
    \<and> (fst (snap_and_close_tab e cfg t p w) \<longrightarrow>
         0 < k \<and> (\<exists>n. render e (length (renders w) + (k - 1)) = Rendered n))
    \<and> (\<not> fst (snap_and_close_tab e cfg t p w) \<and> get_url t \<noteq> [] \<longrightarrow>
         k = nat (max_retries cfg)
         \<and> (\<forall>i<k. \<exists>partial. render e (length (renders w) + i) = Failed partial))"
proof (cases "get_url t = []")
  case True
  then show ?thesis by (intro exI [of _ 0]) (simp add: snap_and_close_tab_def)
next
  case False
  let ?r = "attempts e cfg t p (nat (max_retries cfg)) 0 w"
  have s: "snap_and_close_tab e cfg t p w = ?r"
    using False by (simp add: snap_and_close_tab_def)
  have "0 + nat (max_retries cfg) = nat (max_retries cfg)" by simp
  then obtain k where k: "k \<le> nat (max_retries cfg)"
    "renders (snd ?r) = renders w @ replicate k (t, p)"
    "sleeps (snd ?r) = sleeps w @ replicate (k - 1) 1"
    "\<not> fst ?r \<longrightarrow> k = nat (max_retries cfg)"
    using attempts_count [of 0 "nat (max_retries cfg)" cfg e t p w] by blast
  obtain j where j: "renders (snd ?r) = renders w @ replicate j (t, p)"
    "\<forall>i<j - 1. \<exists>partial. render e (length (renders w) + i) = Failed partial"
    "fst ?r \<longrightarrow> 0 < j \<and> (\<exists>n. render e (length (renders w) + (j - 1)) = Rendered n)"
    "\<not> fst ?r \<longrightarrow> (\<forall>i<j. \<exists>partial. render e (length (renders w) + i) = Failed partial)"
    using attempts_answers [of e cfg t p "nat (max_retries cfg)" 0 w] by blast
  have "replicate k (t, p) = replicate j (t, p)" using k(2) j(1) by simp
  then have "length (replicate k (t, p)) = length (replicate j (t, p))" by (rule arg_cong)
  then have "j = k" by simp
  then show ?thesis
    unfolding s using k j by (intro exI [of _ k]) blast
qed

lemma snap_all_fail:
  assumes "\<forall>i<nat (max_retries cfg). \<exists>partial. render e (length (renders w) + i) = Failed partial"
  shows "\<not> fst (snap_and_close_tab e cfg t p w)
     \<and> close_requests (snd (snap_and_close_tab e cfg t p w)) = close_requests w"
  using attempts_all_fail [OF assms, of cfg t p 0] by (simp add: snap_and_close_tab_def)

lemma snap_gave_up:
  assumes "get_url t \<noteq> []" and "0 < max_retries cfg"
    and "\<not> fst (snap_and_close_tab e cfg t p w)"
  shows "last (logged (snd (snap_and_close_tab e cfg t p w))) = Error_gave_up (max_retries cfg)"
  using assms attempts_gave_up [of 0 "nat (max_retries cfg)" cfg e t p w]
  by (simp add: snap_and_close_tab_def)

subsection \<open>One tab\<close>

lemma world_of_simps [simp]:
  "world_of (Inl (err, w)) = w"
  "world_of (Inr (w, n)) = w"
  by (simp_all add: world_of_def)

lemma process_tab_raise:
  "overflows e t \<Longrightarrow> process_tab e cfg c t (w, n) = Inl (OverflowError, w)"
  by (auto simp: process_tab_def overflows_def get_tab_history_def chrome_ts_def Let_def
      split: lookup.splits)

lemma process_tab_skip:
  "\<not> qualifies e c t \<Longrightarrow> \<not> overflows e t \<Longrightarrow>
     process_tab e cfg c t (w, n) = Inr (w, n)
     \<or> process_tab e cfg c t (w, n) = Inr (emit Warning_database w, n)"
  by (auto simp: process_tab_def qualifies_def overflows_def get_tab_history_def chrome_ts_def
      Let_def split: lookup.splits)

lemma process_tab_dry:
  "dry_run cfg \<Longrightarrow> qualifies e c t \<Longrightarrow>
     process_tab e cfg c t (w, n) = Inr (emit (Info_archiving True (get_title t)) w, n + 1)"
  by (auto simp: process_tab_def qualifies_def get_tab_history_def chrome_ts_def Let_def
      split: lookup.splits)

lemma process_tab_live:
  "\<not> dry_run cfg \<Longrightarrow> qualifies e c t \<Longrightarrow>
     process_tab e cfg c t (w, n) =
       (let p = pdf_path_for e cfg (get_title t) w;
            r = snap_and_close_tab e cfg t p (emit (Info_archiving False (get_title t)) w)
        in if fst r
           then Inr (emit Info_archived
                       (store_locally e (get_url t) (get_title t) p (now e) (snd r)),
                     n + 1)
           else Inr (emit Error_not_archived (snd r), n))"
  by (auto simp: process_tab_def qualifies_def get_tab_history_def chrome_ts_def Let_def
      split: lookup.splits prod.splits)

lemma process_tab_internal:
  "\<not> usable_url t \<Longrightarrow> process_tab e cfg c t st = Inr st"
  by (cases st) (auto simp: process_tab_def usable_url_def Let_def)

lemma qualifies_usable: "qualifies e c t \<Longrightarrow> usable_url t"
  by (simp add: qualifies_def usable_url_def)

lemma qualifies_reads: "qualifies e c t \<Longrightarrow> \<not> overflows e t"
  by (auto simp: qualifies_def overflows_def split: lookup.splits)

lemma process_tab_names:
  "set (map fst (pdfs w)) \<subseteq> set (map fst (pdfs (world_of (process_tab e cfg c t (w, n)))))"
proof (cases "qualifies e c t")
  case False
  show ?thesis
  proof (cases "overflows e t")
    case True
    then show ?thesis by (simp add: process_tab_raise)
  next
    case no: False
    then show ?thesis using False process_tab_skip [of e c t cfg w n] by auto
  qed
next
  case True
  show ?thesis
  proof (cases "dry_run cfg")
    case dry: True
    then show ?thesis using True by (simp add: process_tab_dry)
  next
    case False
    let ?w0 = "emit (Info_archiving False (get_title t)) w"
    have "set (map fst (pdfs ?w0))
        \<subseteq> set (map fst (pdfs (snd (snap_and_close_tab e cfg t (pdf_path_for e cfg (get_title t) w) ?w0))))"
      by (rule snap_names)
    then show ?thesis using True False by (simp add: process_tab_live Let_def)
  qed
qed

text \<open>
  What one pass of the loop body adds: rendering attempts for this tab only, at most one
  index row, which is this tab's, and at most one to the counter.
\<close>

lemma process_tab_effects:
  "\<exists>k rows.
      renders (world_of (process_tab e cfg c t (w, n)))
        = renders w @ replicate k (t, pdf_path_for e cfg (get_title t) w)
    \<and> index_rows (world_of (process_tab e cfg c t (w, n))) = index_rows w @ rows
    \<and> (0 < k \<or> rows \<noteq> [] \<longrightarrow> usable_url t)
    \<and> (\<forall>row\<in>set rows. rec_url row = get_url t \<and> rec_title row = get_title t)
    \<and> (\<forall>w' n'. process_tab e cfg c t (w, n) = Inr (w', n') \<longrightarrow>
          n' \<le> n + (if usable_url t then 1 else 0)
          \<and> (\<not> dry_run cfg \<longrightarrow> n' = n + length rows))"
proof (cases "qualifies e c t")
  case False
  show ?thesis
  proof (cases "overflows e t")
    case True
    then show ?thesis
      by (intro exI [of _ 0] exI [of _ "[]"]) (simp add: process_tab_raise)
  next
    case no: False
    then show ?thesis
      using False process_tab_skip [of e c t cfg w n]
      by (intro exI [of _ 0] exI [of _ "[]"]) (auto simp: index_rows_def)
  qed
next
  case True
  then have u: "usable_url t" by (rule qualifies_usable)
  show ?thesis
  proof (cases "dry_run cfg")
    case dry: True
    then show ?thesis
      using True u by (intro exI [of _ 0] exI [of _ "[]"]) (simp add: process_tab_dry index_rows_def)
  next
    case False
    let ?p = "pdf_path_for e cfg (get_title t) w"
    let ?w0 = "emit (Info_archiving False (get_title t)) w"
    let ?r = "snap_and_close_tab e cfg t ?p ?w0"
    obtain k where k: "renders (snd ?r) = renders ?w0 @ replicate k (t, ?p)"
      using snap_count [of cfg e t ?p ?w0] by blast
    have i: "index_rows (snd ?r) = index_rows w"
      using snap_index [of e cfg t ?p ?w0] by (simp add: index_rows_def)
    show ?thesis
    proof (cases "fst ?r")
      case ok: True
      let ?row = "\<lparr>rec_time = now e, rec_title = get_title t, rec_url = get_url t,
             rec_domain = netloc e (get_url t),
             rec_size = (case map_of (pdfs (snd ?r)) ?p of Some n \<Rightarrow> n | None \<Rightarrow> 0),
             rec_pdf = ?p\<rparr>"
      have s: "process_tab e cfg c t (w, n)
          = Inr (emit Info_archived (store_locally e (get_url t) (get_title t) ?p (now e) (snd ?r)),
                 n + 1)"
        using True False ok by (simp add: process_tab_live Let_def)
      have "index_rows (world_of (process_tab e cfg c t (w, n))) = index_rows w @ [?row]"
        unfolding s using store_locally_rows [of e "get_url t" "get_title t" ?p "now e" "snd ?r"] i
        by (simp add: index_rows_def)
      moreover have "renders (world_of (process_tab e cfg c t (w, n))) = renders w @ replicate k (t, ?p)"
        unfolding s using k by simp
      ultimately show ?thesis
        using u s by (intro exI [of _ k] exI [of _ "[?row]"]) simp
    next
      case no: False
      have s: "process_tab e cfg c t (w, n) = Inr (emit Error_not_archived (snd ?r), n)"
        using True False no by (simp add: process_tab_live Let_def)
      have "index_rows (world_of (process_tab e cfg c t (w, n))) = index_rows w"
        unfolding s using snap_index [of e cfg t ?p ?w0] by (simp add: index_rows_def)
      moreover have "renders (world_of (process_tab e cfg c t (w, n))) = renders w @ replicate k (t, ?p)"
        unfolding s using k by simp
      ultimately show ?thesis
        using u s by (intro exI [of _ k] exI [of _ "[]"]) simp
    qed
  qed
qed

subsection \<open>The loop\<close>

lemma process_each_names:
  "set (map fst (pdfs w)) \<subseteq> set (map fst (pdfs (world_of (process_each e cfg c ts (w, n)))))"
proof (induction ts arbitrary: w n)
  case Nil
  then show ?case by simp
next
  case (Cons t ts)
  have first: "set (map fst (pdfs w)) \<subseteq> set (map fst (pdfs (world_of (process_tab e cfg c t (w, n)))))"
    by (rule process_tab_names)
  show ?case
  proof (cases "process_tab e cfg c t (w, n)")
    case (Inl raised)
    then show ?thesis using first by simp
  next
    case (Inr st)
    obtain w1 n1 where st: "st = (w1, n1)" by (cases st)
    have "set (map fst (pdfs w)) \<subseteq> set (map fst (pdfs w1))"
      using first Inr st by simp
    also have "\<dots> \<subseteq> set (map fst (pdfs (world_of (process_each e cfg c ts (w1, n1)))))"
      by (rule Cons.IH)
    finally show ?thesis using Inr st by simp
  qed
qed


text \<open>
  What the loop adds, in any mode: rendering attempts and index rows of tabs of its list
  with a usable URL, and to the counter at most the number of such tabs; outside a dry
  run the counter grows by the number of rows.
\<close>

lemma process_each_effects:
  "\<exists>new rows.
      renders (world_of (process_each e cfg c ts (w, n))) = renders w @ new
    \<and> (\<forall>x\<in>set new. fst x \<in> set ts \<and> usable_url (fst x))
    \<and> index_rows (world_of (process_each e cfg c ts (w, n))) = index_rows w @ rows
    \<and> (\<forall>row\<in>set rows. \<exists>t\<in>set ts. usable_url t
                           \<and> rec_url row = get_url t \<and> rec_title row = get_title t)
    \<and> (\<forall>w' n'. process_each e cfg c ts (w, n) = Inr (w', n') \<longrightarrow>
          n' \<le> n + length (filter usable_url ts)
          \<and> (\<not> dry_run cfg \<longrightarrow> n' = n + length rows))"
proof (induction ts arbitrary: w n)
  case Nil
  then show ?case by (intro exI [of _ "[]"]) simp
next
  case (Cons t ts)
  let ?r = "process_tab e cfg c t (w, n)"
  obtain k rows1 where one:
    "renders (world_of ?r) = renders w @ replicate k (t, pdf_path_for e cfg (get_title t) w)"
    "index_rows (world_of ?r) = index_rows w @ rows1"
    "0 < k \<or> rows1 \<noteq> [] \<longrightarrow> usable_url t"
    "\<forall>row\<in>set rows1. rec_url row = get_url t \<and> rec_title row = get_title t"
    "\<forall>w' n'. ?r = Inr (w', n') \<longrightarrow>
          n' \<le> n + (if usable_url t then 1 else 0) \<and> (\<not> dry_run cfg \<longrightarrow> n' = n + length rows1)"
    using process_tab_effects [of e cfg c t w n] by blast
  let ?new1 = "replicate k (t, pdf_path_for e cfg (get_title t) w)"
  have new1: "\<forall>x\<in>set ?new1. fst x \<in> set (t # ts) \<and> usable_url (fst x)"
    using one(3) by auto
  have rows1: "\<forall>row\<in>set rows1. \<exists>u\<in>set (t # ts). usable_url u
                           \<and> rec_url row = get_url u \<and> rec_title row = get_title u"
  proof
    fix row assume r: "row \<in> set rows1"
    then have "rows1 \<noteq> []" by auto
    then have "usable_url t" using one(3) by simp
    then show "\<exists>u\<in>set (t # ts). usable_url u \<and> rec_url row = get_url u \<and> rec_title row = get_title u"
      using one(4) r by auto
  qed
  show ?case
  proof (cases ?r)
    case (Inl raised)
    then have "process_each e cfg c (t # ts) (w, n) = Inl raised" by simp
    then show ?thesis
      using one(1,2) new1 rows1 Inl by (intro exI [of _ ?new1] exI [of _ rows1]) simp
  next
    case (Inr st)
    obtain w1 n1 where st: "st = (w1, n1)" by (cases st)
    have r: "?r = Inr (w1, n1)" using Inr st by simp
    have step: "process_each e cfg c (t # ts) (w, n) = process_each e cfg c ts (w1, n1)"
      using r by simp
    have w1: "renders w1 = renders w @ ?new1" "index_rows w1 = index_rows w @ rows1"
      using one(1,2) r by simp_all
    have n1: "n1 \<le> n + (if usable_url t then 1 else 0)" "\<not> dry_run cfg \<longrightarrow> n1 = n + length rows1"
      using one(5) r by simp_all
    obtain new2 rows2 where rest:
      "renders (world_of (process_each e cfg c ts (w1, n1))) = renders w1 @ new2"
      "\<forall>x\<in>set new2. fst x \<in> set ts \<and> usable_url (fst x)"
      "index_rows (world_of (process_each e cfg c ts (w1, n1))) = index_rows w1 @ rows2"
      "\<forall>row\<in>set rows2. \<exists>u\<in>set ts. usable_url u
                           \<and> rec_url row = get_url u \<and> rec_title row = get_title u"
      "\<forall>w' n'. process_each e cfg c ts (w1, n1) = Inr (w', n') \<longrightarrow>
          n' \<le> n1 + length (filter usable_url ts) \<and> (\<not> dry_run cfg \<longrightarrow> n' = n1 + length rows2)"
      using Cons.IH [of w1 n1] by blast
    have a: "renders (world_of (process_each e cfg c (t # ts) (w, n))) = renders w @ (?new1 @ new2)"
      unfolding step using rest(1) w1(1) by simp
    have b: "\<forall>x\<in>set (?new1 @ new2). fst x \<in> set (t # ts) \<and> usable_url (fst x)"
      using new1 rest(2) by auto
    have c: "index_rows (world_of (process_each e cfg c (t # ts) (w, n)))
        = index_rows w @ (rows1 @ rows2)"
      unfolding step using rest(3) w1(2) by simp
    have d: "\<forall>row\<in>set (rows1 @ rows2). \<exists>u\<in>set (t # ts). usable_url u
                           \<and> rec_url row = get_url u \<and> rec_title row = get_title u"
      using rows1 rest(4) by auto
    have f: "\<forall>w' n'. process_each e cfg c (t # ts) (w, n) = Inr (w', n') \<longrightarrow>
          n' \<le> n + length (filter usable_url (t # ts))
          \<and> (\<not> dry_run cfg \<longrightarrow> n' = n + length (rows1 @ rows2))"
      unfolding step using rest(5) n1 by auto
    show ?thesis
      using a b c d f by (intro exI [of _ "?new1 @ new2"] exI [of _ "rows1 @ rows2"]) blast
  qed
qed

lemma process_each_pages:
  "process_each e cfg c (filter is_page tabs) st
     = process_each e cfg c (filter (\<lambda>t. is_page t \<and> usable_url t) tabs) st"
proof (induction tabs arbitrary: st)
  case Nil
  then show ?case by simp
next
  case (Cons t tabs)
  show ?case
  proof (cases "is_page t \<and> \<not> usable_url t")
    case True
    then have "process_tab e cfg c t st = Inr st" by (simp add: process_tab_internal)
    then show ?thesis using True Cons.IH by simp
  next
    case False
    then show ?thesis using Cons.IH by (auto split: sum.splits)
  qed
qed

subsection \<open>The collision loop\<close>

lemma find_free_free: "find_free names stem pdf_path counter \<notin> set names"
proof (induction names stem pdf_path counter rule: find_free.induct)
  case (1 names stem pdf_path counter)
  then show ?case by (subst find_free.simps) simp
qed

lemma find_free_numbered:
  "pdf_path \<in> set names \<Longrightarrow>
     \<exists>k\<ge>counter. find_free names stem pdf_path counter = numbered stem k"
proof (induction names stem pdf_path counter rule: find_free.induct)
  case (1 names stem pdf_path counter)
  have step: "find_free names stem pdf_path counter
      = find_free names stem (numbered stem counter) (Suc counter)"
    using 1(2) by (subst find_free.simps) simp
  show ?case
  proof (cases "numbered stem counter \<in> set names")
    case True
    then obtain k where "k \<ge> Suc counter"
      "find_free names stem (numbered stem counter) (Suc counter) = numbered stem k"
      using 1(1) 1(2) by blast
    then show ?thesis using step by (intro exI [of _ k]) simp
  next
    case False
    then have "find_free names stem (numbered stem counter) (Suc counter) = numbered stem counter"
      by (subst find_free.simps) simp
    then show ?thesis using step by (intro exI [of _ counter]) simp
  qed
qed

lemma find_free_first:
  "pdf_path \<notin> set names \<Longrightarrow> find_free names stem pdf_path counter = pdf_path"
  by (subst find_free.simps) simp

subsection \<open>The run\<close>

text \<open>The call in the case that reaches the loop, and in the cases that do not.\<close>

definition before_loop :: "config \<Rightarrow> int \<Rightarrow> tab list \<Rightarrow> world \<Rightarrow> world" where
  "before_loop cfg c tabs w =
     (emit (Info_found (length (filter is_page tabs)))
        (emit (Info_looking_for c)
           (if \<not> dry_run cfg then w\<lparr>root_dir := True, day_dir := True\<rparr> else w)))
     \<lparr>tmp_history := True, tmp_created := tmp_created w + 1\<rparr>"

lemma before_loop_frame [simp]:
  "pdfs (before_loop cfg c tabs w) = pdfs w"
  "index (before_loop cfg c tabs w) = index w"
  "renders (before_loop cfg c tabs w) = renders w"
  "sleeps (before_loop cfg c tabs w) = sleeps w"
  "close_requests (before_loop cfg c tabs w) = close_requests w"
  by (simp_all add: before_loop_def)

lemma process_tabs_loop:
  assumes "history_exists e" and "cutoff e cfg = Inr c" and "tabs_response e = Some tabs"
    and "tabs \<noteq> []" and "copy_result e = Copied"
  shows "process_tabs e cfg w =
     (case process_each e cfg c (filter is_page tabs) (before_loop cfg c tabs w, 0) of
        Inl (err, w') \<Rightarrow> (Inl err, w'\<lparr>tmp_history := False\<rparr>)
      | Inr (w', processed) \<Rightarrow>
          (Inr (processed, length (filter is_page tabs)), w'\<lparr>tmp_history := False\<rparr>))"
  using assms
  by (simp add: process_tabs_def get_open_tabs_def before_loop_def emit_def Let_def)

lemma process_tabs_no_loop:
  assumes "\<not> (history_exists e \<and> (\<exists>c. cutoff e cfg = Inr c)
             \<and> (\<exists>tabs. tabs_response e = Some tabs \<and> tabs \<noteq> []) \<and> copy_result e = Copied)"
  shows "pdfs (snd (process_tabs e cfg w)) = pdfs w
       \<and> index (snd (process_tabs e cfg w)) = index w
       \<and> renders (snd (process_tabs e cfg w)) = renders w
       \<and> sleeps (snd (process_tabs e cfg w)) = sleeps w
       \<and> close_requests (snd (process_tabs e cfg w)) = close_requests w
       \<and> (\<forall>p total. fst (process_tabs e cfg w) = Inr (p, total) \<longrightarrow> p = 0)"
  using assms
  by (auto simp: process_tabs_def get_open_tabs_def emit_def Let_def
      split: sum.splits option.splits copy_outcome.splits if_splits)

section \<open>The claims\<close>

subsection \<open>C1: the staleness filter\<close>




subsection \<open>C2: index rows and snapshots\<close>

text \<open>
  C2: for every tab processed in a run that is not a dry run, a row is appended to the
  index if and only if the rendering step reports success. For a qualifying tab, exactly
  one row (for this URL, title, target file and run time) is appended when
  \<open>snap_and_close_tab\<close> returns \<open>True\<close>, and then the target file exists; when it
  returns \<open>False\<close>, after all retries, the index is unchanged. A tab that does not
  qualify never reaches the rendering step and leaves the index unchanged, also when its
  history lookup raises.
\<close>

theorem index_row_iff_rendered:
  assumes "\<not> dry_run cfg"
  shows "(qualifies e c t \<longrightarrow>
           (let p = pdf_path_for e cfg (get_title t) w;
                ok = fst (snap_and_close_tab e cfg t p (emit (Info_archiving False (get_title t)) w));
                w' = world_of (process_tab e cfg c t (w, n))
            in ((\<exists>r. index_rows w' = index_rows w @ [r] \<and> rec_url r = get_url t
                      \<and> rec_title r = get_title t \<and> rec_pdf r = p \<and> rec_time r = now e) = ok)
               \<and> (ok \<longrightarrow> p \<in> set (map fst (pdfs w')))
               \<and> (\<not> ok \<longrightarrow> index w' = index w)))
       \<and> (\<not> qualifies e c t \<longrightarrow> index (world_of (process_tab e cfg c t (w, n))) = index w)"
proof (intro conjI impI)
  assume nq: "\<not> qualifies e c t"
  show "index (world_of (process_tab e cfg c t (w, n))) = index w"
  proof (cases "overflows e t")
    case True
    then show ?thesis by (simp add: process_tab_raise)
  next
    case False
    then show ?thesis using nq process_tab_skip [of e c t cfg w n] by auto
  qed
next
  assume q: "qualifies e c t"
  let ?p = "pdf_path_for e cfg (get_title t) w"
  let ?r = "snap_and_close_tab e cfg t ?p (emit (Info_archiving False (get_title t)) w)"
  have i: "index (snd ?r) = index w" by (simp add: snap_index)
  then have ir: "index_rows (snd ?r) = index_rows w" by (simp add: index_rows_def)
  show "let p = pdf_path_for e cfg (get_title t) w;
            ok = fst (snap_and_close_tab e cfg t p (emit (Info_archiving False (get_title t)) w));
            w' = world_of (process_tab e cfg c t (w, n))
        in ((\<exists>r. index_rows w' = index_rows w @ [r] \<and> rec_url r = get_url t
                  \<and> rec_title r = get_title t \<and> rec_pdf r = p \<and> rec_time r = now e) = ok)
           \<and> (ok \<longrightarrow> p \<in> set (map fst (pdfs w')))
           \<and> (\<not> ok \<longrightarrow> index w' = index w)"
  proof (cases "fst ?r")
    case True
    then have w': "world_of (process_tab e cfg c t (w, n))
        = emit Info_archived (store_locally e (get_url t) (get_title t) ?p (now e) (snd ?r))"
      using assms q by (simp add: process_tab_live Let_def)
    have "index_rows (world_of (process_tab e cfg c t (w, n)))
        = index_rows w @ [\<lparr>rec_time = now e, rec_title = get_title t, rec_url = get_url t,
             rec_domain = netloc e (get_url t),
             rec_size = (case map_of (pdfs (snd ?r)) ?p of Some n \<Rightarrow> n | None \<Rightarrow> 0),
             rec_pdf = ?p\<rparr>]"
      unfolding w' using store_locally_rows [of e "get_url t" "get_title t" ?p "now e" "snd ?r"] ir
      by (simp add: index_rows_def)
    moreover have "?p \<in> set (map fst (pdfs (world_of (process_tab e cfg c t (w, n)))))"
      unfolding w' using snap_written [OF True] by simp
    ultimately show ?thesis using True by (simp add: Let_def)
  next
    case False
    then have w': "world_of (process_tab e cfg c t (w, n)) = emit Error_not_archived (snd ?r)"
      using assms q by (simp add: process_tab_live Let_def)
    have "index (world_of (process_tab e cfg c t (w, n))) = index w"
      unfolding w' using i by simp
    moreover from this have "index_rows (world_of (process_tab e cfg c t (w, n))) = index_rows w"
      by (simp add: index_rows_def)
    ultimately show ?thesis using False by (simp add: Let_def)
  qed
qed

text \<open>
  In the sample run tab A is rendered at the first attempt and gets the first row of a
  new index; tab B, processed next, fails three times and leaves that index as it is.
\<close>

theorem index_row_iff_rendered_witness:
  "\<not> dry_run two_weeks \<and> qualifies demo (86 * day) tab_a \<and> qualifies demo (86 * day) tab_b
   \<and> fst (snap_and_close_tab demo two_weeks tab_a
            (pdf_path_for demo two_weeks (get_title tab_a) fresh)
            (emit (Info_archiving False (get_title tab_a)) fresh))
   \<and> (\<exists>r. index_rows (world_of (process_tab demo two_weeks (86 * day) tab_a (fresh, 0)))
            = index_rows fresh @ [r]
          \<and> rec_url r = get_url tab_a \<and> rec_title r = get_title tab_a
          \<and> rec_pdf r = pdf_path_for demo two_weeks (get_title tab_a) fresh
          \<and> rec_time r = now demo)
   \<and> pdf_path_for demo two_weeks (get_title tab_a) fresh
       \<in> set (map fst (pdfs (world_of (process_tab demo two_weeks (86 * day) tab_a (fresh, 0)))))
   \<and> index (world_of (process_tab demo two_weeks (86 * day) tab_a (fresh, 0)))
       = Some [Html_head, Header_row,
           Row \<lparr>rec_time = 100 * day, rec_title = codes ''News: today'',
                rec_url = codes ''http://a'', rec_domain = codes ''a'', rec_size = 1000,
                rec_pdf = codes ''News_ today.pdf''\<rparr>]
   \<and> \<not> fst (snap_and_close_tab demo two_weeks tab_b
              (pdf_path_for demo two_weeks (get_title tab_b) after_a)
              (emit (Info_archiving False (get_title tab_b)) after_a))
   \<and> index (world_of (process_tab demo two_weeks (86 * day) tab_b (after_a, 1))) = index after_a"
proof -
  have live: "\<not> dry_run two_weeks"
    and qa: "qualifies demo (86 * day) tab_a"
    and qb: "qualifies demo (86 * day) tab_b"
    and ok: "fst (snap_and_close_tab demo two_weeks tab_a
            (pdf_path_for demo two_weeks (get_title tab_a) fresh)
            (emit (Info_archiving False (get_title tab_a)) fresh))"
    and no: "\<not> fst (snap_and_close_tab demo two_weeks tab_b
              (pdf_path_for demo two_weeks (get_title tab_b) after_a)
              (emit (Info_archiving False (get_title tab_b)) after_a))"
    and ix: "index (world_of (process_tab demo two_weeks (86 * day) tab_a (fresh, 0)))
       = Some [Html_head, Header_row,
           Row \<lparr>rec_time = 100 * day, rec_title = codes ''News: today'',
                rec_url = codes ''http://a'', rec_domain = codes ''a'', rec_size = 1000,
                rec_pdf = codes ''News_ today.pdf''\<rparr>]"
    by code_simp+
  have a: "(\<exists>r. index_rows (world_of (process_tab demo two_weeks (86 * day) tab_a (fresh, 0)))
            = index_rows fresh @ [r]
          \<and> rec_url r = get_url tab_a \<and> rec_title r = get_title tab_a
          \<and> rec_pdf r = pdf_path_for demo two_weeks (get_title tab_a) fresh
          \<and> rec_time r = now demo)
     \<and> pdf_path_for demo two_weeks (get_title tab_a) fresh
         \<in> set (map fst (pdfs (world_of (process_tab demo two_weeks (86 * day) tab_a (fresh, 0)))))"
    using index_row_iff_rendered [OF live, of demo "86 * day" tab_a fresh 0] qa ok
    by (simp add: Let_def)
  have b: "index (world_of (process_tab demo two_weeks (86 * day) tab_b (after_a, 1))) = index after_a"
    using index_row_iff_rendered [OF live, of demo "86 * day" tab_b after_a 1] qb no
    by (simp add: Let_def)
  show ?thesis using live qa qb ok no ix a b by blast
qed

subsection \<open>C3: the output of the sanitizer\<close>

text \<open>
  C3, as stated: for every input string and every configured maximum length the output
  of \<open>safe_filename\<close> has length at most the maximum. It fails for a maximum below the
  length of the fallback token: the empty title with maximum 3 gives \<open>untitled\<close>, of
  length 8.
\<close>

theorem safe_filename_length_counterexample:
  "safe_filename ascii_db (codes '''') 3 = codes ''untitled''
   \<and> \<not> int (length (safe_filename ascii_db (codes '''') 3)) \<le> 3"
  by (simp add: safe_filename_def clean_def strip_def drop_other_def sub_reserved_def
      codes_def)

text \<open>
  C3, amended: for every input string and every maximum length, the output of
  \<open>safe_filename\<close> contains none of the reserved characters \<open>< > : " / \ | ? *\<close> and is
  never empty; for every maximum that is not negative its length is at most the larger of
  the maximum and 8, the length of the fallback token \<open>untitled\<close>, hence at most the
  maximum whenever that is 8 or more.
\<close>

theorem safe_filename_output:
  "(\<forall>c\<in>set (safe_filename db text max_length). \<not> reserved c)
   \<and> safe_filename db text max_length \<noteq> []
   \<and> (0 \<le> max_length \<longrightarrow>
        int (length (safe_filename db text max_length)) \<le> max max_length 8)"
proof (intro conjI ballI impI)
  fix c
  assume "c \<in> set (safe_filename db text max_length)"
  then show "\<not> reserved c" by (rule safe_filename_unreserved)
next
  show "safe_filename db text max_length \<noteq> []"
    by (simp add: safe_filename_def Let_def untitled_codes)
next
  assume "0 \<le> max_length"
  then show "int (length (safe_filename db text max_length)) \<le> max max_length 8"
    by (rule safe_filename_length)
qed

theorem safe_filename_output_witness:
  "(0::int) \<le> 80
   \<and> safe_filename ascii_db (codes ''Q&A: what/why?'') 80 = codes ''QA_ what_why_''
   \<and> \<not> (\<exists>c\<in>set (safe_filename ascii_db (codes ''Q&A: what/why?'') 80). reserved c)
   \<and> int (length (safe_filename ascii_db (codes ''Q&A: what/why?'') 80)) \<le> 80"
proof -
  have v: "safe_filename ascii_db (codes ''Q&A: what/why?'') 80 = codes ''QA_ what_why_''"
    by code_simp
  show ?thesis
    using safe_filename_output [of ascii_db "codes ''Q&A: what/why?''" 80] v by simp
qed

subsection \<open>C4: dry runs\<close>




subsection \<open>C5: colliding titles\<close>

text \<open>
  C5: in a run that is not a dry run, let two tabs have titles that sanitize to the same
  string, let the first be archived (its snapshot is rendered and it is counted) and the
  second be processed later in the same run, after any tabs in between. Then the file
  name assigned to the second differs from the one assigned to the first, and it is the
  shorter stem with a numeric suffix \<open>_k\<close>, \<open>k\<close> at least 1.
\<close>

theorem collision_suffix:
  assumes "\<not> dry_run cfg"
    and "safe_filename (chars e) (get_title t1) (max_filename_length cfg)
           = safe_filename (chars e) (get_title t2) (max_filename_length cfg)"
    and "process_tab e cfg c t1 (w, n) = Inr (w1, Suc n)"
  shows "let p1 = pdf_path_for e cfg (get_title t1) w;
             w2 = world_of (process_each e cfg c between (w1, Suc n));
             p2 = pdf_path_for e cfg (get_title t2) w2
         in p1 \<noteq> p2
            \<and> (\<exists>k\<ge>1. p2 = numbered (safe_filename (chars e) (get_title t2)
                                       (max_filename_length cfg - 10)) k)"
proof -
  let ?p1 = "pdf_path_for e cfg (get_title t1) w"
  let ?first = "safe_filename (chars e) (get_title t1) (max_filename_length cfg) @ codes ''.pdf''"
  let ?w2 = "world_of (process_each e cfg c between (w1, Suc n))"
  let ?p2 = "pdf_path_for e cfg (get_title t2) ?w2"
  have nr: "\<not> overflows e t1"
    using assms(3) by (auto simp: process_tab_raise)
  have q: "qualifies e c t1"
  proof (rule ccontr)
    assume "\<not> qualifies e c t1"
    then have "process_tab e cfg c t1 (w, n) = Inr (w, n)
        \<or> process_tab e cfg c t1 (w, n) = Inr (emit Warning_database w, n)"
      using nr by (rule process_tab_skip)
    then show False using assms(3) by auto
  qed
  let ?r = "snap_and_close_tab e cfg t1 ?p1 (emit (Info_archiving False (get_title t1)) w)"
  have ok: "fst ?r"
  proof (rule ccontr)
    assume "\<not> fst ?r"
    then have "process_tab e cfg c t1 (w, n) = Inr (emit Error_not_archived (snd ?r), n)"
      using assms(1) q by (simp add: process_tab_live Let_def)
    then show False using assms(3) by simp
  qed
  then have "w1 = emit Info_archived (store_locally e (get_url t1) (get_title t1) ?p1 (now e) (snd ?r))"
    using assms(1,3) q by (simp add: process_tab_live Let_def)
  then have in1: "?p1 \<in> set (map fst (pdfs w1))"
    using snap_written [OF ok] by simp
  have grow1: "set (map fst (pdfs w)) \<subseteq> set (map fst (pdfs w1))"
    using process_tab_names [of w e cfg c t1 n] assms(3) by simp
  have grow2: "set (map fst (pdfs w1)) \<subseteq> set (map fst (pdfs ?w2))"
    by (rule process_each_names)
  have in2: "?p1 \<in> set (map fst (pdfs ?w2))" using in1 grow2 by blast
  have free: "?p2 \<notin> set (map fst (pdfs ?w2))"
    unfolding pdf_path_for_def Let_def by (rule find_free_free)
  have first: "?first \<in> set (map fst (pdfs ?w2))"
  proof (cases "?first \<in> set (map fst (pdfs w))")
    case True
    then show ?thesis using grow1 grow2 by blast
  next
    case False
    then have "?p1 = ?first" by (simp add: pdf_path_for_def Let_def find_free_first)
    then show ?thesis using in2 by simp
  qed
  then have "safe_filename (chars e) (get_title t2) (max_filename_length cfg) @ codes ''.pdf''
      \<in> set (map fst (pdfs ?w2))"
    using assms(2) by simp
  then have "\<exists>k\<ge>1. ?p2 = numbered (safe_filename (chars e) (get_title t2)
                                       (max_filename_length cfg - 10)) k"
    unfolding pdf_path_for_def Let_def by (rule find_free_numbered)
  moreover have "?p1 \<noteq> ?p2" using in2 free by metis
  ultimately show ?thesis by (simp add: Let_def)
qed

text \<open>
  In the sample run the titles \<open>News: today\<close> and \<open>News_ today\<close> both sanitize to
  \<open>News_ today\<close>; tab A is archived first, tabs B, C and D come in between.
\<close>

theorem collision_suffix_witness:
  "\<not> dry_run two_weeks
   \<and> safe_filename (chars demo) (get_title tab_a) (max_filename_length two_weeks)
       = safe_filename (chars demo) (get_title tab_e) (max_filename_length two_weeks)
   \<and> process_tab demo two_weeks (86 * day) tab_a (fresh, 0) = Inr (after_a, Suc 0)
   \<and> pdf_path_for demo two_weeks (get_title tab_a) fresh = codes ''News_ today.pdf''
   \<and> pdf_path_for demo two_weeks (get_title tab_e)
        (world_of (process_each demo two_weeks (86 * day) [tab_b, tab_c, tab_d] (after_a, Suc 0)))
       = codes ''News_ today_1.pdf''
   \<and> pdf_path_for demo two_weeks (get_title tab_a) fresh
       \<noteq> pdf_path_for demo two_weeks (get_title tab_e)
            (world_of (process_each demo two_weeks (86 * day) [tab_b, tab_c, tab_d] (after_a, Suc 0)))
   \<and> (\<exists>k\<ge>1. pdf_path_for demo two_weeks (get_title tab_e)
                (world_of (process_each demo two_weeks (86 * day) [tab_b, tab_c, tab_d]
                             (after_a, Suc 0)))
              = numbered (safe_filename (chars demo) (get_title tab_e)
                            (max_filename_length two_weeks - 10)) k)"
proof -
  have live: "\<not> dry_run two_weeks"
    and same: "safe_filename (chars demo) (get_title tab_a) (max_filename_length two_weeks)
       = safe_filename (chars demo) (get_title tab_e) (max_filename_length two_weeks)"
    and arch: "process_tab demo two_weeks (86 * day) tab_a (fresh, 0) = Inr (after_a, Suc 0)"
    and p1: "pdf_path_for demo two_weeks (get_title tab_a) fresh = codes ''News_ today.pdf''"
    and p2: "pdf_path_for demo two_weeks (get_title tab_e)
        (world_of (process_each demo two_weeks (86 * day) [tab_b, tab_c, tab_d] (after_a, Suc 0)))
       = codes ''News_ today_1.pdf''"
    by code_simp+
  note c = collision_suffix [OF live same arch, of "[tab_b, tab_c, tab_d]", unfolded Let_def]
  show ?thesis using live same arch p1 p2 c by blast
qed

subsection \<open>C6: the endpoint is unreachable\<close>

text \<open>
  C6: when the request for the tab list fails, \<open>process_tabs\<close> returns (0, 0); it makes
  no rendering attempt, sends no tab-close request, writes no PDF and leaves the index as
  it was, and it does not copy the history database. (The request is made only after the
  cutoff was computed; a run that raises there makes none of these effects either.)
\<close>

theorem endpoint_unreachable:
  assumes "tabs_response e = None"
  shows "(\<forall>c. cutoff e cfg = Inr c \<longrightarrow> fst (process_tabs e cfg w) = Inr (0, 0))
       \<and> (\<not> history_exists e \<longrightarrow> fst (process_tabs e cfg w) = Inr (0, 0))
       \<and> renders (snd (process_tabs e cfg w)) = renders w
       \<and> close_requests (snd (process_tabs e cfg w)) = close_requests w
       \<and> index (snd (process_tabs e cfg w)) = index w
       \<and> pdfs (snd (process_tabs e cfg w)) = pdfs w
       \<and> tmp_history (snd (process_tabs e cfg w)) = tmp_history w"
  using assms
  by (cases "cutoff e cfg") (simp_all add: process_tabs_def get_open_tabs_def Let_def)

theorem endpoint_unreachable_witness:
  "tabs_response offline = None
   \<and> cutoff offline two_weeks = Inr (86 * day)
   \<and> fst (process_tabs offline two_weeks fresh) = Inr (0, 0)
   \<and> renders (snd (process_tabs offline two_weeks fresh)) = []
   \<and> close_requests (snd (process_tabs offline two_weeks fresh)) = []
   \<and> index (snd (process_tabs offline two_weeks fresh)) = None
   \<and> pdfs (snd (process_tabs offline two_weeks fresh)) = []
   \<and> logged (snd (process_tabs offline two_weeks fresh))
       = [Info_looking_for (86 * day), Error_connect]"
proof -
  have down: "tabs_response offline = None"
    and c: "cutoff offline two_weeks = Inr (86 * day)"
    and l: "logged (snd (process_tabs offline two_weeks fresh))
       = [Info_looking_for (86 * day), Error_connect]"
    by code_simp+
  have f: "pdfs fresh = [] \<and> index fresh = None \<and> close_requests fresh = [] \<and> renders fresh = []"
    by (simp add: fresh_def)
  show ?thesis
    using endpoint_unreachable [OF down, of two_weeks fresh] down c l f by simp
qed

subsection \<open>C7: the history cannot be copied\<close>

text \<open>
  C7: when the history database exists, the tab list was obtained and copying the
  database to its temporary place fails, \<open>process_tabs\<close> returns zero processed and a
  total equal to the number of tabs of type \<open>page\<close>; no tab is rendered, closed or
  indexed. (The copy is attempted only after the cutoff was computed.)
\<close>

theorem history_copy_failure:
  assumes "history_exists e" and "tabs_response e = Some tabs" and "\<not> copy_ok e"
  shows "(\<forall>c. cutoff e cfg = Inr c \<longrightarrow>
            fst (process_tabs e cfg w) = Inr (0, length (filter is_page tabs)))
       \<and> renders (snd (process_tabs e cfg w)) = renders w
       \<and> close_requests (snd (process_tabs e cfg w)) = close_requests w
       \<and> index (snd (process_tabs e cfg w)) = index w
       \<and> pdfs (snd (process_tabs e cfg w)) = pdfs w"
  using assms
  by (cases "cutoff e cfg"; cases "copy_result e")
     (simp_all add: process_tabs_def get_open_tabs_def copy_ok_def Let_def)

theorem history_copy_failure_witness:
  "history_exists locked \<and> \<not> copy_ok locked
   \<and> cutoff locked two_weeks = Inr (86 * day)
   \<and> tabs_response locked = Some [tab_a, tab_s, tab_b, tab_c, tab_d, tab_e]
   \<and> fst (process_tabs locked two_weeks fresh) = Inr (0, 5)
   \<and> renders (snd (process_tabs locked two_weeks fresh)) = []
   \<and> close_requests (snd (process_tabs locked two_weeks fresh)) = []
   \<and> index (snd (process_tabs locked two_weeks fresh)) = None
   \<and> pdfs (snd (process_tabs locked two_weeks fresh)) = []"
proof -
  have h: "history_exists locked" and c: "\<not> copy_ok locked"
    and u: "cutoff locked two_weeks = Inr (86 * day)"
    and t: "tabs_response locked = Some [tab_a, tab_s, tab_b, tab_c, tab_d, tab_e]"
    and p: "length (filter is_page [tab_a, tab_s, tab_b, tab_c, tab_d, tab_e]) = 5"
    by code_simp+
  have f: "pdfs fresh = [] \<and> index fresh = None \<and> close_requests fresh = [] \<and> renders fresh = []"
    by (simp add: fresh_def)
  note n = history_copy_failure [OF h t c, of two_weeks fresh]
  have "fst (process_tabs locked two_weeks fresh)
      = Inr (0, length (filter is_page [tab_a, tab_s, tab_b, tab_c, tab_d, tab_e]))"
    using n u by blast
  then have r: "fst (process_tabs locked two_weeks fresh) = Inr (0, 5)"
    by (simp only: p)
  have k: "renders (snd (process_tabs locked two_weeks fresh)) = renders fresh
      \<and> close_requests (snd (process_tabs locked two_weeks fresh)) = close_requests fresh
      \<and> index (snd (process_tabs locked two_weeks fresh)) = index fresh
      \<and> pdfs (snd (process_tabs locked two_weeks fresh)) = pdfs fresh"
    using n by blast
  show ?thesis using h c u t r k f by simp
qed

subsection \<open>C8: bounded retries\<close>

text \<open>
  C8: for every tab, a failed rendering attempt is followed by another attempt, after a
  pause of exactly one second, until an attempt completes or \<open>max_retries\<close> attempts (3
  in the initial configuration) were made: the step makes \<open>k\<close> attempts, at most
  \<open>max_retries\<close>, all for this tab and its target file, with \<open>k - 1\<close> pauses of one
  second; every attempt before the last fails; if the step reports success the last
  attempt completed, and if it reports failure (for a tab with a URL) it made all
  \<open>max_retries\<close> attempts and all of them failed. If every attempt fails, the step
  returns \<open>False\<close> (it does not raise), the final error is logged, and in a run that is
  not a dry run the loop over the tabs goes on with the remaining tabs: the failed tab is
  logged as not archived, it is not counted, and it adds neither an index row nor a
  tab-close request.
\<close>

theorem render_retry_bounded:
  "(\<exists>k\<le>nat (max_retries cfg).
       renders (snd (snap_and_close_tab e cfg t p w)) = renders w @ replicate k (t, p)
     \<and> sleeps (snd (snap_and_close_tab e cfg t p w)) = sleeps w @ replicate (k - 1) 1
     \<and> (\<forall>i<k - 1. \<exists>partial. render e (length (renders w) + i) = Failed partial)
     \<and> (fst (snap_and_close_tab e cfg t p w) \<longrightarrow>
          0 < k \<and> (\<exists>n. render e (length (renders w) + (k - 1)) = Rendered n))
     \<and> (\<not> fst (snap_and_close_tab e cfg t p w) \<and> get_url t \<noteq> [] \<longrightarrow>
          k = nat (max_retries cfg)
          \<and> (\<forall>i<k. \<exists>partial. render e (length (renders w) + i) = Failed partial)))
   \<and> max_retries Config_init = 3
   \<and> ((\<forall>i<nat (max_retries cfg). \<exists>partial. render e (length (renders w) + i) = Failed partial) \<longrightarrow>
        \<not> fst (snap_and_close_tab e cfg t p w)
        \<and> (get_url t \<noteq> [] \<and> 0 < max_retries cfg \<longrightarrow>
             last (logged (snd (snap_and_close_tab e cfg t p w))) = Error_gave_up (max_retries cfg))
        \<and> (\<not> dry_run cfg \<and> qualifies e c t \<longrightarrow>
             (\<exists>w'. process_each e cfg c (t # rest) (w, n) = process_each e cfg c rest (w', n)
                   \<and> index w' = index w \<and> close_requests w' = close_requests w
                   \<and> last (logged w') = Error_not_archived)))"
proof (intro conjI impI)
  show "\<exists>k\<le>nat (max_retries cfg).
       renders (snd (snap_and_close_tab e cfg t p w)) = renders w @ replicate k (t, p)
     \<and> sleeps (snd (snap_and_close_tab e cfg t p w)) = sleeps w @ replicate (k - 1) 1
     \<and> (\<forall>i<k - 1. \<exists>partial. render e (length (renders w) + i) = Failed partial)
     \<and> (fst (snap_and_close_tab e cfg t p w) \<longrightarrow>
          0 < k \<and> (\<exists>n. render e (length (renders w) + (k - 1)) = Rendered n))
     \<and> (\<not> fst (snap_and_close_tab e cfg t p w) \<and> get_url t \<noteq> [] \<longrightarrow>
          k = nat (max_retries cfg)
          \<and> (\<forall>i<k. \<exists>partial. render e (length (renders w) + i) = Failed partial))"
    by (rule snap_count)
next
  show "max_retries Config_init = 3" by (simp add: Config_init_def)
next
  assume "\<forall>i<nat (max_retries cfg). \<exists>partial. render e (length (renders w) + i) = Failed partial"
  then show "\<not> fst (snap_and_close_tab e cfg t p w)" using snap_all_fail by blast
next
  assume "\<forall>i<nat (max_retries cfg). \<exists>partial. render e (length (renders w) + i) = Failed partial"
  then have "\<not> fst (snap_and_close_tab e cfg t p w)" using snap_all_fail by blast
  moreover assume "get_url t \<noteq> [] \<and> 0 < max_retries cfg"
  ultimately show "last (logged (snd (snap_and_close_tab e cfg t p w))) = Error_gave_up (max_retries cfg)"
    using snap_gave_up by blast
next
  assume f: "\<forall>i<nat (max_retries cfg). \<exists>partial. render e (length (renders w) + i) = Failed partial"
  assume l: "\<not> dry_run cfg \<and> qualifies e c t"
  let ?w0 = "emit (Info_archiving False (get_title t)) w"
  let ?r = "snap_and_close_tab e cfg t (pdf_path_for e cfg (get_title t) w) ?w0"
  have "\<forall>i<nat (max_retries cfg). \<exists>partial. render e (length (renders ?w0) + i) = Failed partial"
    using f by simp
  then have r: "\<not> fst ?r \<and> close_requests (snd ?r) = close_requests ?w0"
    by (rule snap_all_fail)
  then have s: "process_tab e cfg c t (w, n) = Inr (emit Error_not_archived (snd ?r), n)"
    using l by (simp add: process_tab_live Let_def)
  show "\<exists>w'. process_each e cfg c (t # rest) (w, n) = process_each e cfg c rest (w', n)
                   \<and> index w' = index w \<and> close_requests w' = close_requests w
                   \<and> last (logged w') = Error_not_archived"
    using s r by (intro exI [of _ "emit Error_not_archived (snd ?r)"]) (simp add: snap_index)
qed

text \<open>
  With a renderer that always fails, tab A is tried three times with two pauses of one
  second, and the loop goes on with tab E. With a renderer whose first attempt fails, tab
  A is tried twice with one pause.
\<close>

theorem render_retry_bounded_witness:
  "render failing 0 = Failed None \<and> render failing 1 = Failed None
   \<and> render failing 2 = Failed None
   \<and> max_retries two_weeks = 3 \<and> \<not> dry_run two_weeks \<and> qualifies failing (86 * day) tab_a
   \<and> get_url tab_a \<noteq> []
   \<and> \<not> fst (snap_and_close_tab failing two_weeks tab_a (codes ''News_ today.pdf'') fresh)
   \<and> renders (snd (snap_and_close_tab failing two_weeks tab_a (codes ''News_ today.pdf'') fresh))
       = replicate 3 (tab_a, codes ''News_ today.pdf'')
   \<and> sleeps (snd (snap_and_close_tab failing two_weeks tab_a (codes ''News_ today.pdf'') fresh))
       = [1, 1]
   \<and> last (logged (snd (snap_and_close_tab failing two_weeks tab_a (codes ''News_ today.pdf'') fresh)))
       = Error_gave_up 3
   \<and> (\<exists>w'. process_each failing two_weeks (86 * day) [tab_a, tab_e] (fresh, 0)
               = process_each failing two_weeks (86 * day) [tab_e] (w', 0)
          \<and> index w' = index fresh \<and> close_requests w' = close_requests fresh
          \<and> last (logged w') = Error_not_archived)
   \<and> render flaky 0 = Failed None \<and> render flaky 1 = Rendered 1000
   \<and> fst (snap_and_close_tab flaky two_weeks tab_a (codes ''News_ today.pdf'') fresh)
   \<and> renders (snd (snap_and_close_tab flaky two_weeks tab_a (codes ''News_ today.pdf'') fresh))
       = replicate 2 (tab_a, codes ''News_ today.pdf'')
   \<and> sleeps (snd (snap_and_close_tab flaky two_weeks tab_a (codes ''News_ today.pdf'') fresh))
       = [1]"
proof -
  let ?p = "codes ''News_ today.pdf''"
  have r: "render failing 0 = Failed None \<and> render failing 1 = Failed None
      \<and> render failing 2 = Failed None"
    and m: "max_retries two_weeks = 3"
    and live: "\<not> dry_run two_weeks"
    and q: "qualifies failing (86 * day) tab_a"
    and u: "get_url tab_a \<noteq> []"
    and fl: "render flaky 0 = Failed None \<and> render flaky 1 = Rendered 1000"
    and ok: "fst (snap_and_close_tab flaky two_weeks tab_a (codes ''News_ today.pdf'') fresh)"
    and rs: "renders (snd (snap_and_close_tab flaky two_weeks tab_a (codes ''News_ today.pdf'') fresh))
       = replicate 2 (tab_a, codes ''News_ today.pdf'')"
    and sl: "sleeps (snd (snap_and_close_tab flaky two_weeks tab_a (codes ''News_ today.pdf'') fresh))
       = [1]"
    by code_simp+
  have e: "renders fresh = [] \<and> sleeps fresh = []" by (simp add: fresh_def)
  have "render failing = (\<lambda>i. Failed None)" by (simp add: failing_def)
  then have all: "\<forall>i<nat (max_retries two_weeks).
      \<exists>partial. render failing (length (renders fresh) + i) = Failed partial"
    by simp
  have pos: "0 < max_retries two_weeks" using m by simp
  note c = render_retry_bounded [where cfg = two_weeks and e = failing and t = tab_a and p = ?p
      and w = fresh and c = "86 * day" and rest = "[tab_e]" and n = 0]
  have c1: "\<not> fst (snap_and_close_tab failing two_weeks tab_a ?p fresh)"
    using c all by blast
  have c2: "last (logged (snd (snap_and_close_tab failing two_weeks tab_a ?p fresh)))
       = Error_gave_up (max_retries two_weeks)"
    using c all u pos by blast
  have c3: "\<exists>w'. process_each failing two_weeks (86 * day) [tab_a, tab_e] (fresh, 0)
               = process_each failing two_weeks (86 * day) [tab_e] (w', 0)
          \<and> index w' = index fresh \<and> close_requests w' = close_requests fresh
          \<and> last (logged w') = Error_not_archived"
    using c all live q by blast
  obtain k where k:
    "renders (snd (snap_and_close_tab failing two_weeks tab_a ?p fresh))
       = renders fresh @ replicate k (tab_a, ?p)"
    "sleeps (snd (snap_and_close_tab failing two_weeks tab_a ?p fresh))
       = sleeps fresh @ replicate (k - 1) 1"
    "\<not> fst (snap_and_close_tab failing two_weeks tab_a ?p fresh) \<and> get_url tab_a \<noteq> [] \<longrightarrow>
       k = nat (max_retries two_weeks)"
    using c by blast
  have k3: "k = 3" using k(3) c1 u m by simp
  have c4: "renders (snd (snap_and_close_tab failing two_weeks tab_a ?p fresh))
       = replicate 3 (tab_a, ?p)"
    using k(1) k3 e by simp
  have c5: "sleeps (snd (snap_and_close_tab failing two_weeks tab_a ?p fresh)) = [1, 1]"
    using k(2) k3 e by (simp add: numeral_3_eq_3)
  have c2': "last (logged (snd (snap_and_close_tab failing two_weeks tab_a ?p fresh)))
       = Error_gave_up 3"
    using c2 m by simp
  show ?thesis using r m live q u fl ok rs sl c1 c2' c3 c4 c5 by blast
qed

subsection \<open>C9: tabs that are never archived\<close>

text \<open>
  C9: let the endpoint answer the list \<open>tabs\<close>. Every rendering attempt that
  \<open>process_tabs\<close> makes is for a tab of that list whose type is \<open>page\<close> and whose URL is
  neither empty nor starts with \<open>chrome://\<close>, \<open>chrome-extension://\<close>, \<open>edge://\<close> or
  \<open>about:\<close>; every index row it appends carries the URL and the title of such a tab; and
  the number it returns as processed is at most the number of such tabs and, outside a
  dry run, the number of rows it appended. So a tab of another type, or with an empty or
  internal URL, is never rendered, never gets an index row and is never counted as
  processed. Moreover the loop over the page tabs does on the tabs with an empty or
  internal URL nothing at all: it behaves as on the list without them.
\<close>

theorem ineligible_tabs_ignored:
  assumes "tabs_response e = Some tabs"
  shows "(\<exists>new rows.
            renders (snd (process_tabs e cfg w)) = renders w @ new
          \<and> (\<forall>x\<in>set new. fst x \<in> set tabs \<and> is_page (fst x)
                \<and> get_url (fst x) \<noteq> [] \<and> \<not> internal_url (get_url (fst x)))
          \<and> index_rows (snd (process_tabs e cfg w)) = index_rows w @ rows
          \<and> (\<forall>row\<in>set rows. \<exists>t\<in>set tabs. is_page t
                \<and> get_url t \<noteq> [] \<and> \<not> internal_url (get_url t)
                \<and> rec_url row = get_url t \<and> rec_title row = get_title t)
          \<and> (\<forall>processed total. fst (process_tabs e cfg w) = Inr (processed, total) \<longrightarrow>
                processed \<le> length (filter (\<lambda>t. is_page t \<and> get_url t \<noteq> []
                                               \<and> \<not> internal_url (get_url t)) tabs)
                \<and> (\<not> dry_run cfg \<longrightarrow> processed = length rows)))
       \<and> process_each e cfg c (filter is_page tabs) st
           = process_each e cfg c
               (filter (\<lambda>t. is_page t \<and> get_url t \<noteq> [] \<and> \<not> internal_url (get_url t)) tabs) st"
proof
  show "process_each e cfg c (filter is_page tabs) st
           = process_each e cfg c
               (filter (\<lambda>t. is_page t \<and> get_url t \<noteq> [] \<and> \<not> internal_url (get_url t)) tabs) st"
    using process_each_pages [of e cfg c tabs st] by (simp add: usable_url_def)
next
  let ?R = "process_tabs e cfg w"
  let ?good = "\<lambda>t. is_page t \<and> get_url t \<noteq> [] \<and> \<not> internal_url (get_url t)"
  show "\<exists>new rows.
            renders (snd ?R) = renders w @ new
          \<and> (\<forall>x\<in>set new. fst x \<in> set tabs \<and> is_page (fst x)
                \<and> get_url (fst x) \<noteq> [] \<and> \<not> internal_url (get_url (fst x)))
          \<and> index_rows (snd ?R) = index_rows w @ rows
          \<and> (\<forall>row\<in>set rows. \<exists>t\<in>set tabs. is_page t
                \<and> get_url t \<noteq> [] \<and> \<not> internal_url (get_url t)
                \<and> rec_url row = get_url t \<and> rec_title row = get_title t)
          \<and> (\<forall>processed total. fst ?R = Inr (processed, total) \<longrightarrow>
                processed \<le> length (filter ?good tabs)
                \<and> (\<not> dry_run cfg \<longrightarrow> processed = length rows))"
  proof (cases "history_exists e \<and> (\<exists>c. cutoff e cfg = Inr c)
             \<and> (\<exists>tabs. tabs_response e = Some tabs \<and> tabs \<noteq> []) \<and> copy_result e = Copied")
    case False
    then have n: "index (snd ?R) = index w" "renders (snd ?R) = renders w"
      "\<forall>p total. fst ?R = Inr (p, total) \<longrightarrow> p = 0"
      using process_tabs_no_loop [of e cfg w] by simp_all
    from n(1) have "index_rows (snd ?R) = index_rows w" by (simp add: index_rows_def)
    then show ?thesis using n(2,3) by (intro exI [of _ "[]"]) auto
  next
    case True
    then obtain d where h: "history_exists e" "cutoff e cfg = Inr d"
      "tabs_response e = Some tabs" "tabs \<noteq> []" "copy_result e = Copied"
      using assms by auto
    let ?pages = "filter is_page tabs"
    let ?w1 = "before_loop cfg d tabs w"
    let ?L = "process_each e cfg d ?pages (?w1, 0)"
    obtain new rows where l:
      "renders (world_of ?L) = renders ?w1 @ new"
      "\<forall>x\<in>set new. fst x \<in> set ?pages \<and> usable_url (fst x)"
      "index_rows (world_of ?L) = index_rows ?w1 @ rows"
      "\<forall>row\<in>set rows. \<exists>t\<in>set ?pages. usable_url t
                           \<and> rec_url row = get_url t \<and> rec_title row = get_title t"
      "\<forall>w' n'. ?L = Inr (w', n') \<longrightarrow>
          n' \<le> 0 + length (filter usable_url ?pages) \<and> (\<not> dry_run cfg \<longrightarrow> n' = 0 + length rows)"
      using process_each_effects [of e cfg d ?pages ?w1 0] by blast
    have run: "?R = (case ?L of
        Inl (err, w') \<Rightarrow> (Inl err, w'\<lparr>tmp_history := False\<rparr>)
      | Inr (w', processed) \<Rightarrow> (Inr (processed, length ?pages), w'\<lparr>tmp_history := False\<rparr>))"
      by (rule process_tabs_loop [OF h])
    have w: "snd ?R = (world_of ?L)\<lparr>tmp_history := False\<rparr>"
      unfolding run by (cases ?L) auto
    have i1: "index_rows ?w1 = index_rows w" by (simp add: index_rows_def)
    have a: "renders (snd ?R) = renders w @ new"
      unfolding w using l(1) by simp
    have b: "\<forall>x\<in>set new. fst x \<in> set tabs \<and> is_page (fst x)
                \<and> get_url (fst x) \<noteq> [] \<and> \<not> internal_url (get_url (fst x))"
      using l(2) by (auto simp: usable_url_def)
    have "index_rows (snd ?R) = index_rows (world_of ?L)"
      unfolding w by (simp add: index_rows_def)
    then have c': "index_rows (snd ?R) = index_rows w @ rows"
      using l(3) i1 by simp
    have d': "\<forall>row\<in>set rows. \<exists>t\<in>set tabs. is_page t
                \<and> get_url t \<noteq> [] \<and> \<not> internal_url (get_url t)
                \<and> rec_url row = get_url t \<and> rec_title row = get_title t"
      using l(4) by (auto simp: usable_url_def)
    have len: "length (filter usable_url ?pages) = length (filter ?good tabs)"
      by (simp add: usable_url_def conj_commute)
    have f: "\<forall>processed total. fst ?R = Inr (processed, total) \<longrightarrow>
                processed \<le> length (filter ?good tabs)
                \<and> (\<not> dry_run cfg \<longrightarrow> processed = length rows)"
    proof (intro allI impI)
      fix processed total
      assume r: "fst ?R = Inr (processed, total)"
      then obtain w' where "?L = Inr (w', processed)"
        unfolding run by (cases ?L) auto
      then have "processed \<le> 0 + length (filter usable_url ?pages)
          \<and> (\<not> dry_run cfg \<longrightarrow> processed = 0 + length rows)"
        using l(5) by blast
      then show "processed \<le> length (filter ?good tabs)
                \<and> (\<not> dry_run cfg \<longrightarrow> processed = length rows)"
        using len by simp
    qed
    show ?thesis using a b c' d' f by (intro exI [of _ new] exI [of _ rows]) blast
  qed
qed

text \<open>
  The sample run, not as a dry run: the five rendering attempts are for the tabs A, B
  (three times) and E, the two rows are those of A and E, and two tabs are counted; the
  service worker S and the browser page C appear nowhere.
\<close>

theorem ineligible_tabs_ignored_witness:
  "tabs_response demo = Some [tab_a, tab_s, tab_b, tab_c, tab_d, tab_e]
   \<and> \<not> is_page tab_s \<and> internal_url (get_url tab_c)
   \<and> fst (process_tabs demo two_weeks fresh) = Inr (2, 5)
   \<and> map fst (renders (snd (process_tabs demo two_weeks fresh)))
       = [tab_a, tab_b, tab_b, tab_b, tab_e]
   \<and> map rec_url (index_rows (snd (process_tabs demo two_weeks fresh)))
       = [codes ''http://a'', codes ''http://e'']
   \<and> (\<exists>new rows.
          renders (snd (process_tabs demo two_weeks fresh)) = renders fresh @ new
        \<and> (\<forall>x\<in>set new. fst x \<in> set [tab_a, tab_s, tab_b, tab_c, tab_d, tab_e] \<and> is_page (fst x)
              \<and> get_url (fst x) \<noteq> [] \<and> \<not> internal_url (get_url (fst x)))
        \<and> index_rows (snd (process_tabs demo two_weeks fresh)) = index_rows fresh @ rows
        \<and> (\<forall>row\<in>set rows. \<exists>t\<in>set [tab_a, tab_s, tab_b, tab_c, tab_d, tab_e]. is_page t
              \<and> get_url t \<noteq> [] \<and> \<not> internal_url (get_url t)
              \<and> rec_url row = get_url t \<and> rec_title row = get_title t)
        \<and> (\<forall>processed total. fst (process_tabs demo two_weeks fresh) = Inr (processed, total) \<longrightarrow>
              processed \<le> length (filter (\<lambda>t. is_page t \<and> get_url t \<noteq> []
                                             \<and> \<not> internal_url (get_url t))
                                   [tab_a, tab_s, tab_b, tab_c, tab_d, tab_e])
              \<and> (\<not> dry_run two_weeks \<longrightarrow> processed = length rows)))"
proof -
  have t: "tabs_response demo = Some [tab_a, tab_s, tab_b, tab_c, tab_d, tab_e]"
    and s: "\<not> is_page tab_s" and i: "internal_url (get_url tab_c)"
    and r: "fst (process_tabs demo two_weeks fresh) = Inr (2, 5)"
    and a: "map fst (renders (snd (process_tabs demo two_weeks fresh)))
       = [tab_a, tab_b, tab_b, tab_b, tab_e]"
    and u: "map rec_url (index_rows (snd (process_tabs demo two_weeks fresh)))
       = [codes ''http://a'', codes ''http://e'']"
    by code_simp+
  note c = ineligible_tabs_ignored [OF t, where cfg = two_weeks and w = fresh, THEN conjunct1]
  show ?thesis using t s i r a u c by blast
qed

subsection \<open>C10: sanitizing twice\<close>

text \<open>
  C10, as stated: \<open>safe_filename\<close> is idempotent for every string and every maximum
  length. It fails for a maximum below 8: the empty title with maximum 3 gives
  \<open>untitled\<close>, and \<open>untitled\<close> with maximum 3 gives \<open>unt\<close>.
\<close>

theorem safe_filename_idempotent_counterexample:
  "safe_filename ascii_db (safe_filename ascii_db (codes '''') 3) 3 = codes ''unt''
   \<and> safe_filename ascii_db (codes '''') 3 = codes ''untitled''
   \<and> safe_filename ascii_db (safe_filename ascii_db (codes '''') 3) 3
       \<noteq> safe_filename ascii_db (codes '''') 3"
proof -
  have a: "safe_filename ascii_db (codes '''') 3 = codes ''untitled''"
    by code_simp
  have b: "safe_filename ascii_db (codes ''untitled'') 3 = codes ''unt''"
    by code_simp
  show ?thesis by (simp add: a b) (simp add: codes_def)
qed

text \<open>
  C10, amended: \<open>safe_filename\<close> is idempotent for every string and every maximum length
  of at least 8, the length of the fallback token: sanitizing its own output with the
  same maximum returns that output.
\<close>

theorem safe_filename_idempotent:
  assumes "8 \<le> m"
  shows "safe_filename db (safe_filename db s m) m = safe_filename db s m"
proof -
  let ?n = "clean db s"
  let ?t = "if int (length ?n) > m then rsplit1_head (slice_to ?n m) else ?n"
  have tn: "tidy db ?n" by (rule tidy_clean)
  have "?n = slice_to ?n m @ drop (nat m) ?n" using assms by (simp add: slice_to_def)
  then have "tidy db (slice_to ?n m @ drop (nat m) ?n)" using tn by simp
  then have "tidy db (rsplit1_head (slice_to ?n m))" by (rule tidy_rsplit1_head)
  then have tt: "tidy db ?t" using tn by simp
  have "length (rsplit1_head (slice_to ?n m)) \<le> length (slice_to ?n m)"
    by (rule length_rsplit1_head)
  also have "\<dots> \<le> nat m" using assms by (simp add: slice_to_def)
  finally have lt: "int (length ?t) \<le> m" using assms by auto
  have r: "safe_filename db s m = (if ?t = [] then codes ''untitled'' else ?t)"
    by (simp add: safe_filename_def Let_def)
  show ?thesis
  proof (cases "?t = []")
    case True
    then have "safe_filename db s m = codes ''untitled''" using r by simp
    moreover have "safe_filename db (codes ''untitled'') m = codes ''untitled''"
      using assms by (intro safe_filename_tidy tidy_untitled) (simp_all add: untitled_codes)
    ultimately show ?thesis by simp
  next
    case False
    then have "safe_filename db s m = ?t" using r by simp
    moreover have "safe_filename db ?t m = ?t"
      using tt lt False by (rule safe_filename_tidy)
    ultimately show ?thesis by simp
  qed
qed

theorem safe_filename_idempotent_witness:
  "(8::int) \<le> 11
   \<and> safe_filename ascii_db (codes ''hello  world: foo'') 11 = codes ''hello''
   \<and> safe_filename ascii_db (safe_filename ascii_db (codes ''hello  world: foo'') 11) 11
       = safe_filename ascii_db (codes ''hello  world: foo'') 11"
proof -
  have v: "safe_filename ascii_db (codes ''hello  world: foo'') 11 = codes ''hello''"
    by code_simp
  have h: "(8::int) \<le> 11" by simp
  show ?thesis
    using safe_filename_idempotent [OF h, of ascii_db "codes ''hello  world: foo''"] v h
    by simp
qed

end
